theory Spec2Isabelle
  imports Complex_Main "HOL-Library.Product_Lexorder" "HOL-Library.List_Lexorder"
    "HOL-Library.Char_ord" "HOL-Library.Multiset"
begin

section \<open>The thumbnail sequence of Scan Tailor (ThumbnailSequence.cpp)\<close>

text \<open>
  This theory embeds \<^verbatim>\<open>ThumbnailSequence::Impl\<close> and \<^verbatim>\<open>ThumbnailSequence::Item\<close>
  of \<^verbatim>\<open>src/ThumbnailSequence.cpp\<close>.  The conventions are these.

  \<^item> An \<^verbatim>\<open>Item\<close> lives in a node of the multi-index container and is referred to by
    its address (\<^verbatim>\<open>Item const*\<close>, iterators); an address is a \<open>handle\<close>.  The
    container is an arena \<open>m_items\<close> from handles to items together with the two
    sequenced indices as lists of handles; the ordered-unique index is the arena
    sorted by \<^verbatim>\<open>PageId\<close>.
  \<^item> Iterators of a sequenced index that is not modified during a loop are positions
    (\<open>nat\<close>); \<^verbatim>\<open>begin()\<close> is \<open>0\<close> and \<^verbatim>\<open>end()\<close> is the length.
  \<^item> Every operation returns the new state and the list of Qt signals it emitted.
  \<^item> \<^verbatim>\<open>double\<close> coordinates are idealised as \<open>real\<close>; C++ \<^verbatim>\<open>int\<close> is \<open>int\<close>
    (signed overflow is undefined in C++; the counters involved are bounded by the
    number of items).
  \<^item> \<^verbatim>\<open>assert\<close> is compiled out; repainting (\<^verbatim>\<open>updateAppearence\<close>, \<^verbatim>\<open>update\<close>) and
    the scene's own registry of graphics items are outside the model.
\<close>

subsection \<open>Page identities (PageId.h, ImageId.h, PageInfo.h: only used here)\<close>

datatype ImageId = ImageId (filePath: string) (page: int)

definition ImageId_isNull :: "ImageId \<Rightarrow> bool" where
  "ImageId_isNull i = (filePath i = [])"

datatype SubPage = SINGLE_PAGE | LEFT_PAGE | RIGHT_PAGE

datatype PageId = PageId (imageId: ImageId) (subPage: SubPage)

fun SubPage_rank :: "SubPage \<Rightarrow> nat" where
  "SubPage_rank SINGLE_PAGE = 0"
| "SubPage_rank LEFT_PAGE = 1"
| "SubPage_rank RIGHT_PAGE = 2"

text \<open>
  \<^verbatim>\<open>operator<\<close> on \<^verbatim>\<open>PageId\<close> compares the image first and the sub-page second
  (the comment in \<^verbatim>\<open>insert\<close> relies on \<^verbatim>\<open>PageId(image)\<close>, a \<^verbatim>\<open>SINGLE_PAGE\<close>, being
  the least identity of its image).  The order is that of the key below.
\<close>

definition PageId_key :: "PageId \<Rightarrow> string \<times> int \<times> nat" where
  "PageId_key p = (filePath (imageId p), page (imageId p), SubPage_rank (subPage p))"

record PageInfo =
  id' :: PageId
  isMultiPageFile :: bool

text \<open>The default-constructed \<^verbatim>\<open>PageInfo()\<close>: a null image, \<^verbatim>\<open>SINGLE_PAGE\<close>.\<close>

definition PageInfo_null :: PageInfo where
  "PageInfo_null = \<lparr>id' = PageId (ImageId [] 0) SINGLE_PAGE, isMultiPageFile = False\<rparr>"

definition PageInfo_isNull :: "PageInfo \<Rightarrow> bool" where
  "PageInfo_isNull p = ImageId_isNull (imageId (id' p))"

definition PageInfo_imageId :: "PageInfo \<Rightarrow> ImageId" where
  "PageInfo_imageId p = imageId (id' p)"

definition setId :: "PageId \<Rightarrow> PageInfo \<Rightarrow> PageInfo" where
  "setId new_id p = p\<lparr>id' := new_id\<rparr>"

text \<open>A \<^verbatim>\<open>PageOrderProvider\<close> is its \<^verbatim>\<open>precedes(PageId, PageId)\<close>.\<close>

type_synonym PageOrderProvider = "PageId \<Rightarrow> PageId \<Rightarrow> bool"

text \<open>
  Modelled from the spec: \<^verbatim>\<open>PageOrderProvider::comparator()\<close> is declared in
  PageOrderProvider.h, which is not part of the sources; section 6 calls it
  ``a reusable comparator for stable bulk sort'' of the same order.
\<close>

definition comparator :: "PageOrderProvider \<Rightarrow> PageInfo \<Rightarrow> PageInfo \<Rightarrow> bool" where
  "comparator prec a b = prec (id' a) (id' b)"

record PageSequenceSnapshot =
  snapshotPages :: "PageInfo list"
  curPage :: PageInfo

subsection \<open>Geometry (QRectF, QPointF) and the composite visual\<close>

record QRectF =
  xp :: real
  yp :: real
  wd :: real
  ht :: real

type_synonym QPointF = "real \<times> real"

definition QRectF_isNull :: "QRectF \<Rightarrow> bool" where
  "QRectF_isNull r = (wd r = 0 \<and> ht r = 0)"

definition QRectF_top :: "QRectF \<Rightarrow> real" where
  "QRectF_top r = yp r"

definition QRectF_bottom :: "QRectF \<Rightarrow> real" where
  "QRectF_bottom r = yp r + ht r"

definition setTop :: "real \<Rightarrow> QRectF \<Rightarrow> QRectF" where
  "setTop t r = r\<lparr>yp := t, ht := ht r - (t - yp r)\<rparr>"

definition setBottom :: "real \<Rightarrow> QRectF \<Rightarrow> QRectF" where
  "setBottom b r = r\<lparr>ht := b - yp r\<rparr>"

definition translate :: "QPointF \<Rightarrow> QRectF \<Rightarrow> QRectF" where
  "translate p r = r\<lparr>xp := xp r + fst p, yp := yp r + snd p\<rparr>"

definition adjust :: "real \<Rightarrow> real \<Rightarrow> real \<Rightarrow> real \<Rightarrow> QRectF \<Rightarrow> QRectF" where
  "adjust dx1 dy1 dx2 dy2 r =
     \<lparr>xp = xp r + dx1, yp = yp r + dy1, wd = wd r + dx2 - dx1, ht = ht r + dy2 - dy1\<rparr>"

text \<open>\<^verbatim>\<open>QRectF::operator|\<close>: the bounding rectangle of two rectangles; a null one is ignored.\<close>

definition united :: "QRectF \<Rightarrow> QRectF \<Rightarrow> QRectF" where
  "united a r =
     (if QRectF_isNull a then r
      else if QRectF_isNull r then a
      else let left = min (min (xp a) (xp a + wd a)) (min (xp r) (xp r + wd r));
               right = max (max (xp a) (xp a + wd a)) (max (xp r) (xp r + wd r));
               tp = min (min (yp a) (yp a + ht a)) (min (yp r) (yp r + ht r));
               bt = max (max (yp a) (yp a + ht a)) (max (yp r) (yp r + ht r))
           in \<lparr>xp = left, yp = tp, wd = right - left, ht = bt - tp\<rparr>)"

text \<open>\<^verbatim>\<open>QPolygonF::boundingRect\<close> of the four corners of a rectangle.\<close>

definition normalized :: "QRectF \<Rightarrow> QRectF" where
  "normalized r =
     \<lparr>xp = min (xp r) (xp r + wd r), yp = min (yp r) (yp r + ht r),
      wd = \<bar>wd r\<bar>, ht = \<bar>ht r\<bar>\<rparr>"

text \<open>
  A \<^verbatim>\<open>CompositeItem\<close> is a top-level, untransformed graphics item: its position, the
  rectangle of its thumbnail in its own coordinates (\<^verbatim>\<open>m_pThumb->boundingRect()\<close>
  moved by \<^verbatim>\<open>m_pThumb->pos()\<close>) and the rectangle of the group of its children
  (\<^verbatim>\<open>QGraphicsItemGroup::boundingRect()\<close>).  What the thumbnail factory and the
  fonts produce for a page is an input: \<open>Visuals\<close>.
\<close>

record CompositeItem =
  pos :: QPointF
  thumbRect :: QRectF
  groupRect :: QRectF

type_synonym Visuals = "PageInfo \<Rightarrow> int \<Rightarrow> QRectF \<times> QRectF"

definition boundingRect :: "CompositeItem \<Rightarrow> QRectF" where
  "boundingRect c = adjust (-100) (-5) 100 3 (groupRect c)"

definition setPos :: "QPointF \<Rightarrow> CompositeItem \<Rightarrow> CompositeItem" where
  "setPos p c = c\<lparr>pos := p\<rparr>"

definition updateSceneRect :: "CompositeItem \<Rightarrow> QRectF \<Rightarrow> QRectF" where
  "updateSceneRect c scene_rect =
     (let rect = translate (pos c) (thumbRect c);
          bounding_rect = translate (pos c) (boundingRect c);
          rect = setTop (QRectF_top bounding_rect) rect;
          rect = setBottom (QRectF_bottom bounding_rect) rect
      in united scene_rect rect)"

text \<open>\<^verbatim>\<open>composite->mapToScene(composite->boundingRect()).boundingRect()\<close>\<close>

definition sceneBoundingRect :: "CompositeItem \<Rightarrow> QRectF" where
  "sceneBoundingRect c = normalized (translate (pos c) (boundingRect c))"

subsection \<open>Items and the container\<close>

type_synonym handle = nat

record Item =
  pageInfo :: PageInfo
  pageNum :: int
  composite :: CompositeItem
  m_isSelected :: bool
  m_isSelectionLeader :: bool

definition Item_new :: "PageInfo \<Rightarrow> int \<Rightarrow> CompositeItem \<Rightarrow> Item" where
  "Item_new page_info page_num comp_item =
     \<lparr>pageInfo = page_info, pageNum = page_num, composite = comp_item,
      m_isSelected = False, m_isSelectionLeader = False\<rparr>"

definition pageId :: "Item \<Rightarrow> PageId" where
  "pageId it = id' (pageInfo it)"

definition setSelected :: "bool \<Rightarrow> Item \<Rightarrow> Item" where
  "setSelected selected it =
     it\<lparr>m_isSelected := selected,
        m_isSelectionLeader := (m_isSelectionLeader it \<and> selected)\<rparr>"

definition setSelectionLeader :: "bool \<Rightarrow> Item \<Rightarrow> Item" where
  "setSelectionLeader selection_leader it =
     it\<lparr>m_isSelected := (m_isSelected it \<or> selection_leader),
        m_isSelectionLeader := selection_leader\<rparr>"

record Impl =
  m_items :: "handle \<Rightarrow> Item option"
  m_itemsInOrder :: "handle list"
  m_selectedThenUnselected :: "handle list"
  m_pSelectionLeader :: "handle option"
  m_ptrOrderProvider :: "PageOrderProvider option"
  m_sceneRect :: QRectF
  graphicsSceneRect :: QRectF

definition SPACING :: real where
  "SPACING = 10"

definition QRectF_zero :: QRectF where
  "QRectF_zero = \<lparr>xp = 0, yp = 0, wd = 0, ht = 0\<rparr>"

text \<open>The state after the constructor: an empty container and no leader.\<close>

definition Impl_init :: Impl where
  "Impl_init =
     \<lparr>m_items = Map.empty, m_itemsInOrder = [], m_selectedThenUnselected = [],
      m_pSelectionLeader = None, m_ptrOrderProvider = None,
      m_sceneRect = \<lparr>xp = 0, yp = 0, wd = 0, ht = 0\<rparr>,
      graphicsSceneRect = \<lparr>xp = 0, yp = 0, wd = 0, ht = 0\<rparr>\<rparr>"

text \<open>
  Dereferencing an item pointer.  Every pointer the code dereferences comes from an
  index of the container, so the handle is live.
\<close>

definition deref :: "Impl \<Rightarrow> handle \<Rightarrow> Item" where
  "deref s h = the (m_items s h)"

definition isSelected :: "Impl \<Rightarrow> handle \<Rightarrow> bool" where
  "isSelected s h = (case m_items s h of Some it \<Rightarrow> m_isSelected it | None \<Rightarrow> False)"

definition modifyItem :: "handle \<Rightarrow> (Item \<Rightarrow> Item) \<Rightarrow> Impl \<Rightarrow> Impl" where
  "modifyItem h f s = s\<lparr>m_items := (m_items s)(h := map_option f (m_items s h))\<rparr>"

text \<open>The page identities of the items in display order.\<close>

definition orderIds :: "Impl \<Rightarrow> PageId list" where
  "orderIds s = map (\<lambda>h. pageId (deref s h)) (m_itemsInOrder s)"

subsection \<open>itemInsertPosition\<close>

text \<open>
  The two loops of \<^verbatim>\<open>itemInsertPosition\<close>.  The cursor \<open>i\<close> stays within
  \<open>[bgn, en]\<close> because the hint is there, so \<^verbatim>\<open>ins_pos != begin\<close> is \<open>bgn < i\<close> and
  \<^verbatim>\<open>ins_pos != end\<close> is \<open>i < en\<close>.
\<close>

fun moveBack :: "PageOrderProvider \<Rightarrow> PageId list \<Rightarrow> nat \<Rightarrow> PageId \<Rightarrow> nat \<Rightarrow> int \<Rightarrow> nat \<times> int" where
  "moveBack prec ids bgn page_id ins_pos dst =
     (if bgn < ins_pos \<and> prec page_id (ids ! ins_pos)
      then moveBack prec ids bgn page_id (ins_pos - 1) (dst - 1)
      else (ins_pos, dst))"

function advance :: "PageOrderProvider \<Rightarrow> PageId list \<Rightarrow> nat \<Rightarrow> PageId \<Rightarrow> nat \<Rightarrow> int \<Rightarrow> nat \<times> int" where
  "advance prec ids en page_id ins_pos dst =
     (if ins_pos < en \<and> \<not> prec page_id (ids ! ins_pos)
      then advance prec ids en page_id (ins_pos + 1) (dst + 1)
      else (ins_pos, dst))"
  by pat_completeness auto
termination
  by (relation "measure (\<lambda>(prec, ids, en, page_id, ins_pos, dst). en - ins_pos)") auto

declare moveBack.simps [simp del] advance.simps [simp del]

text \<open>
  The result is the position and the value written to \<^verbatim>\<open>*dist_from_hint\<close> (a caller
  that passes no pointer drops the second component).
\<close>

definition itemInsertPosition :: "Impl \<Rightarrow> nat \<Rightarrow> nat \<Rightarrow> PageId \<Rightarrow> nat \<Rightarrow> nat \<times> int" where
  "itemInsertPosition s bgn en page_id hint =
     (case m_ptrOrderProvider s of
        None \<Rightarrow> (hint, 0)
      | Some prec \<Rightarrow>
          (let ids = orderIds s;
               moved = (if hint \<noteq> bgn
                       then (if hint = en
                             then moveBack prec ids bgn page_id (hint - 1) (- 1)
                             else moveBack prec ids bgn page_id hint 0)
                       else (hint, 0))
           in advance prec ids en page_id (fst moved) (snd moved)))"

subsection \<open>Signals\<close>

datatype SelectionFlag = SELECTED_BY_USER | REDUNDANT_SELECTION | AVOID_SCROLLING_TO

type_synonym SelectionFlags = "SelectionFlag set"

definition DEFAULT_SELECTION_FLAGS :: SelectionFlags where
  "DEFAULT_SELECTION_FLAGS = {}"

type_synonym QPoint = "int \<times> int"

datatype Signal =
    newSelectionLeader PageInfo QRectF SelectionFlags
  | pageContextMenuRequested PageInfo QPoint bool
  | pastLastPageContextMenuRequested QPoint

definition emitNewSelectionLeader :: "PageInfo \<Rightarrow> CompositeItem \<Rightarrow> SelectionFlags \<Rightarrow> Signal" where
  "emitNewSelectionLeader page_info c flags =
     newSelectionLeader page_info (sceneBoundingRect c) flags"

text \<open>
  What can go wrong in C++ without a defined result: a null \<^verbatim>\<open>m_pSelectionLeader\<close> is
  dereferenced, an iterator is used after its element was erased, a loop without an
  exit condition never finds its target.
\<close>

datatype error = NullDereference | InvalidatedIterator | NoReturn

subsection \<open>Operations of the container\<close>

fun index_of :: "'a \<Rightarrow> 'a list \<Rightarrow> nat" where
  "index_of x [] = 0"
| "index_of x (y # ys) = (if x = y then 0 else Suc (index_of x ys))"

text \<open>The distance of two positions of the display order.\<close>

definition orderDistance :: "nat \<Rightarrow> nat \<Rightarrow> nat" where
  "orderDistance a b = (if a < b then b - a else a - b)"

text \<open>The ordered-unique index: the items by ascending \<^verbatim>\<open>PageId\<close>.\<close>

definition itemsById :: "Impl \<Rightarrow> handle list" where
  "itemsById s = sort_key (\<lambda>h. PageId_key (pageId (deref s h))) (m_itemsInOrder s)"

definition findById :: "Impl \<Rightarrow> PageId \<Rightarrow> handle option" where
  "findById s page_id = List.find (\<lambda>h. pageId (deref s h) = page_id) (itemsById s)"

definition lower_bound :: "Impl \<Rightarrow> PageId \<Rightarrow> handle option" where
  "lower_bound s k =
     List.find (\<lambda>h. PageId_key k \<le> PageId_key (pageId (deref s h))) (itemsById s)"

text \<open>The address of a new node is one that no live node has.\<close>

definition freshHandle :: "Impl \<Rightarrow> handle" where
  "freshHandle s = Suc (fold max (m_itemsInOrder s) 0)"

text \<open>
  Insertion through the display-order index at a position.  The ordered-unique index
  rejects an identity it already holds; an accepted item goes to the end of the
  other sequenced index.
\<close>

definition insertAt :: "nat \<Rightarrow> Item \<Rightarrow> Impl \<Rightarrow> Impl" where
  "insertAt i it s =
     (if findById s (pageId it) \<noteq> None then s
      else let h = freshHandle s
           in s\<lparr>m_items := (m_items s)(h \<mapsto> it),
                m_itemsInOrder := take i (m_itemsInOrder s) @ [h] @ drop i (m_itemsInOrder s),
                m_selectedThenUnselected := m_selectedThenUnselected s @ [h]\<rparr>)"

definition push_back :: "Item \<Rightarrow> Impl \<Rightarrow> Impl" where
  "push_back it s = insertAt (length (m_itemsInOrder s)) it s"

definition erase :: "handle \<Rightarrow> Impl \<Rightarrow> Impl" where
  "erase h s =
     s\<lparr>m_items := (m_items s)(h := None),
       m_itemsInOrder := remove1 h (m_itemsInOrder s),
       m_selectedThenUnselected := remove1 h (m_selectedThenUnselected s)\<rparr>"

text \<open>
  \<^verbatim>\<open>m_itemsById.modify(it, PageIdMutator(new_id))\<close>: when the new key collides with
  another element, the container erases the modified element; the loop in
  \<^verbatim>\<open>removePages\<close> then increments the iterator of the erased element.
\<close>

definition modify :: "handle \<Rightarrow> PageId \<Rightarrow> Impl \<Rightarrow> error + Impl" where
  "modify h new_id s =
     (if list_ex (\<lambda>h'. h' \<noteq> h \<and> pageId (deref s h') = new_id) (m_itemsInOrder s)
      then Inl InvalidatedIterator
      else Inr (modifyItem h (\<lambda>it. it\<lparr>pageInfo := setId new_id (pageInfo it)\<rparr>) s))"

definition moveToSelected :: "handle \<Rightarrow> Impl \<Rightarrow> Impl" where
  "moveToSelected h s =
     s\<lparr>m_selectedThenUnselected := h # remove1 h (m_selectedThenUnselected s)\<rparr>"

definition moveToUnselected :: "handle \<Rightarrow> Impl \<Rightarrow> Impl" where
  "moveToUnselected h s =
     s\<lparr>m_selectedThenUnselected := remove1 h (m_selectedThenUnselected s) @ [h]\<rparr>"

text \<open>
  \<^verbatim>\<open>std::stable_sort\<close> and \<^verbatim>\<open>sequenced_index::sort\<close> are stable; for the strict weak
  order they require, the result is that of the stable insertion sort.
\<close>

fun stable_insert :: "('a \<Rightarrow> 'a \<Rightarrow> bool) \<Rightarrow> 'a \<Rightarrow> 'a list \<Rightarrow> 'a list" where
  "stable_insert lt x [] = [x]"
| "stable_insert lt x (y # ys) = (if lt y x then y # stable_insert lt x ys else x # y # ys)"

definition stable_sort :: "('a \<Rightarrow> 'a \<Rightarrow> bool) \<Rightarrow> 'a list \<Rightarrow> 'a list" where
  "stable_sort lt xs = foldr (stable_insert lt) xs []"

subsection \<open>Visuals and layout\<close>

definition getCompositeItem :: "Visuals \<Rightarrow> PageInfo \<Rightarrow> int \<Rightarrow> CompositeItem" where
  "getCompositeItem vis page_info page_num =
     \<lparr>pos = (0, 0), thumbRect = fst (vis page_info page_num),
      groupRect = snd (vis page_info page_num)\<rparr>"

definition commitSceneRect :: "Impl \<Rightarrow> Impl" where
  "commitSceneRect s =
     (if QRectF_isNull (m_sceneRect s)
      then s\<lparr>graphicsSceneRect := \<lparr>xp = 0, yp = 0, wd = 1, ht = 1\<rparr>\<rparr>
      else s\<lparr>graphicsSceneRect := m_sceneRect s\<rparr>)"

definition setComposite :: "CompositeItem \<Rightarrow> Item \<Rightarrow> Item" where
  "setComposite c it = it\<lparr>composite := c\<rparr>"

text \<open>
  \<^verbatim>\<open>for (; ord_it != ord_end; ++ord_it) { setPos(0.0, offset); offset += height + SPACING; }\<close>
  over the handles between the two iterators.
\<close>

fun reposition :: "handle list \<Rightarrow> real \<Rightarrow> Impl \<Rightarrow> Impl \<times> real" where
  "reposition [] offset s = (s, offset)"
| "reposition (h # hs) offset s =
     (let s = modifyItem h (\<lambda>it. setComposite (setPos (0, offset) (composite it)) it) s
      in reposition hs (offset + ht (boundingRect (composite (deref s h))) + SPACING) s)"

text \<open>
  \<^verbatim>\<open>for (; ord_it != ord_end; ++ord_it) { setPos(pos() + pos_delta); updateSceneRect(m_sceneRect); }\<close>
\<close>

fun shiftItems :: "QPointF \<Rightarrow> handle list \<Rightarrow> Impl \<Rightarrow> Impl" where
  "shiftItems pos_delta [] s = s"
| "shiftItems pos_delta (h # hs) s =
     (let s = modifyItem h (\<lambda>it. setComposite
                (setPos (fst (pos (composite it)) + fst pos_delta,
                         snd (pos (composite it)) + snd pos_delta) (composite it)) it) s;
          s = s\<lparr>m_sceneRect := updateSceneRect (composite (deref s h)) (m_sceneRect s)\<rparr>
      in shiftItems pos_delta hs s)"

subsection \<open>Selection bookkeeping\<close>

text \<open>
  \<^verbatim>\<open>BOOST_FOREACH\<close> over \<^verbatim>\<open>m_selectedThenUnselected\<close>, leaving at the first item that is
  not selected.
\<close>

fun selectedItems_loop :: "Impl \<Rightarrow> handle list \<Rightarrow> PageId set" where
  "selectedItems_loop s [] = {}"
| "selectedItems_loop s (h # hs) =
     (if \<not> isSelected s h then {}
      else insert (pageId (deref s h)) (selectedItems_loop s hs))"

definition selectedItems :: "Impl \<Rightarrow> PageId set" where
  "selectedItems s = selectedItems_loop s (m_selectedThenUnselected s)"

definition multipleItemsSelected :: "Impl \<Rightarrow> bool" where
  "multipleItemsSelected s =
     (case m_selectedThenUnselected s of
        a # b # _ \<Rightarrow> isSelected s a \<and> isSelected s b
      | _ \<Rightarrow> False)"

fun clearSelection_loop :: "handle list \<Rightarrow> Impl \<Rightarrow> Impl" where
  "clearSelection_loop [] s = s"
| "clearSelection_loop (h # hs) s =
     (if \<not> isSelected s h then s
      else clearSelection_loop hs (modifyItem h (setSelected False) s))"

definition clearSelection :: "Impl \<Rightarrow> Impl" where
  "clearSelection s =
     (let s = s\<lparr>m_pSelectionLeader := None\<rparr>
      in clearSelection_loop (m_selectedThenUnselected s) s)"

definition clear :: "Impl \<Rightarrow> Impl" where
  "clear s =
     commitSceneRect
       (s\<lparr>m_pSelectionLeader := None, m_items := Map.empty, m_itemsInOrder := [],
          m_selectedThenUnselected := [],
          m_sceneRect := \<lparr>xp = 0, yp = 0, wd = 0, ht = 0\<rparr>\<rparr>)"

subsection \<open>reset\<close>

datatype SelectionAction = KEEP_SELECTION | RESET_SELECTION

text \<open>
  The body of the loop over the sorted pages.  When \<^verbatim>\<open>push_back\<close> is rejected
  (an identity that occurs twice), \<^verbatim>\<open>&m_itemsInOrder.back()\<close> is the item pushed last.
\<close>

definition reset_step ::
  "Visuals \<Rightarrow> PageId set \<Rightarrow> PageInfo \<Rightarrow> PageInfo \<Rightarrow> nat
     \<Rightarrow> Impl \<times> handle option \<times> real \<Rightarrow> Impl \<times> handle option \<times> real" where
  "reset_step vis selected selection_leader page_info i acc =
     (case acc of (s, some_selected_item, offset) \<Rightarrow>
        let c = setPos (0, offset) (getCompositeItem vis page_info (int i));
            s = s\<lparr>m_sceneRect := updateSceneRect c (m_sceneRect s)\<rparr>;
            offset = offset + ht (boundingRect c) + SPACING;
            s = push_back (Item_new page_info (int i) c) s;
            item = last (m_itemsInOrder s);
            s = (if id' page_info \<in> selected
                 then moveToSelected item (modifyItem item (setSelected True) s) else s);
            some_selected_item =
                (if id' page_info \<in> selected then Some item else some_selected_item);
            s = (if id' page_info = id' selection_leader
                 then s\<lparr>m_pSelectionLeader := Some item\<rparr> else s)
        in (s, some_selected_item, offset))"

fun reset_loop ::
  "Visuals \<Rightarrow> PageId set \<Rightarrow> PageInfo \<Rightarrow> PageInfo list \<Rightarrow> nat
     \<Rightarrow> Impl \<times> handle option \<times> real \<Rightarrow> Impl \<times> handle option \<times> real" where
  "reset_loop vis selected selection_leader [] i acc = acc"
| "reset_loop vis selected selection_leader (page_info # rest) i acc =
     reset_loop vis selected selection_leader rest (i + 1)
       (reset_step vis selected selection_leader page_info i acc)"

text \<open>The choice of a leader when the loop has found none.\<close>

definition reset_leader :: "PageSequenceSnapshot \<Rightarrow> handle option \<Rightarrow> Impl \<Rightarrow> Impl" where
  "reset_leader pages some_selected_item s =
     (if m_pSelectionLeader s = None
      then (case some_selected_item of
              Some item \<Rightarrow> s\<lparr>m_pSelectionLeader := Some item\<rparr>
            | None \<Rightarrow>
                (case findById s (id' (curPage pages)) of
                   Some h \<Rightarrow> moveToSelected h (s\<lparr>m_pSelectionLeader := Some h\<rparr>)
                 | None \<Rightarrow> s))
      else s)"

definition reset ::
  "Impl \<Rightarrow> Visuals \<Rightarrow> PageSequenceSnapshot \<Rightarrow> SelectionAction \<Rightarrow> PageOrderProvider option
     \<Rightarrow> Impl \<times> Signal list" where
  "reset s vis pages selection_action order_provider =
     (let s = s\<lparr>m_ptrOrderProvider := order_provider\<rparr>;
          selected = (if selection_action = KEEP_SELECTION then selectedItems s else {});
          selection_leader =
            (if selection_action = KEEP_SELECTION
             then (case m_pSelectionLeader s of
                     Some l \<Rightarrow> pageInfo (deref s l)
                   | None \<Rightarrow> PageInfo_null)
             else PageInfo_null);
          s = clear s
      in if length (snapshotPages pages) = 0 then (s, [])
         else
           let sorted_pages =
                 (case m_ptrOrderProvider s of
                    Some prec \<Rightarrow> stable_sort (comparator prec) (snapshotPages pages)
                  | None \<Rightarrow> snapshotPages pages);
               looped = reset_loop vis selected selection_leader sorted_pages 0 (s, None, 0);
               s = commitSceneRect (fst looped);
               s = reset_leader pages (fst (snd looped)) s
           in (case m_pSelectionLeader s of
                 Some l \<Rightarrow>
                   (let s = modifyItem l (setSelectionLeader True) s
                    in (s, [emitNewSelectionLeader selection_leader (composite (deref s l))
                              DEFAULT_SELECTION_FLAGS]))
               | None \<Rightarrow> (s, [])))"

subsection \<open>invalidateThumbnail and invalidateAllThumbnails\<close>

text \<open>
  Positions in \<^verbatim>\<open>invalidateThumbnail\<close>.  With the item at position \<open>k\<close>, moving it
  to the front leaves its successor \<^verbatim>\<open>after_old\<close> at \<open>k + 1\<close>; moving it from the
  front to before \<^verbatim>\<open>after_new\<close> leaves it at \<open>after_new - 1\<close>, keeps \<^verbatim>\<open>after_new\<close> in
  place, and shifts \<^verbatim>\<open>after_old\<close> to \<open>k\<close> exactly when it is before \<^verbatim>\<open>after_new\<close>,
  that is when \<^verbatim>\<open>dist > 0\<close>.
\<close>

definition relocateInvalidated :: "Impl \<Rightarrow> handle \<Rightarrow> PageId \<Rightarrow> Impl \<times> nat \<times> nat \<times> int" where
  "relocateInvalidated s h page_id =
     (let after_old = index_of h (m_itemsInOrder s) + 1;
          s = s\<lparr>m_itemsInOrder := h # remove1 h (m_itemsInOrder s)\<rparr>;
          ins = itemInsertPosition s 1 (length (m_itemsInOrder s)) page_id after_old;
          after_new = fst ins;
          others = tl (m_itemsInOrder s)
      in (s\<lparr>m_itemsInOrder :=
              take (after_new - 1) others @ [h] @ drop (after_new - 1) others\<rparr>,
          after_old, after_new, snd ins))"

text \<open>
  ``Now let's reposition the items on the scene'': the items between the old and the
  new position, and the items after both when the size has changed.
\<close>

definition repositionInvalidated :: "Impl \<Rightarrow> nat \<Rightarrow> nat \<Rightarrow> int \<Rightarrow> bool \<Rightarrow> Impl" where
  "repositionInvalidated s after_old after_new dst size_changed =
     (let ord_it = (if dst \<le> 0 then after_new - 1 else after_old - 1);
          ord_end = (if dst \<le> 0 then after_old else after_new);
          offset =
            (if ord_it \<noteq> 0
             then (let prev = composite (deref s (m_itemsInOrder s ! (ord_it - 1)))
                   in snd (pos prev) + ht (boundingRect prev) + SPACING)
             else 0);
          moved = reposition (take (ord_end - ord_it) (drop ord_it (m_itemsInOrder s)))
                    offset s
      in if size_changed
         then fst (reposition (drop ord_end (m_itemsInOrder (fst moved)))
                     (snd moved) (fst moved))
         else fst moved)"

text \<open>``Update scene rect.''\<close>

definition updateSceneRectInvalidated :: "Impl \<Rightarrow> handle \<Rightarrow> Impl" where
  "updateSceneRectInvalidated s h =
     (let r = setTop (QRectF_bottom (m_sceneRect s)) (m_sceneRect s);
          r = updateSceneRect (composite (deref s (hd (m_itemsInOrder s)))) r;
          r = setBottom (QRectF_top r) r;
          r = updateSceneRect (composite (deref s (last (m_itemsInOrder s)))) r;
          r = updateSceneRect (composite (deref s h)) r
      in commitSceneRect (s\<lparr>m_sceneRect := r\<rparr>))"

definition invalidateThumbnail :: "Impl \<Rightarrow> Visuals \<Rightarrow> PageId \<Rightarrow> Impl \<times> Signal list" where
  "invalidateThumbnail s vis page_id =
     (case findById s page_id of
        None \<Rightarrow> (s, [])
      | Some h \<Rightarrow>
          (let new_composite =
                 getCompositeItem vis (pageInfo (deref s h)) (pageNum (deref s h));
               old_composite = composite (deref s h);
               old_size = (wd (boundingRect old_composite), ht (boundingRect old_composite));
               new_size = (wd (boundingRect new_composite), ht (boundingRect new_composite));
               old_pos = pos new_composite;
               s = modifyItem h (setComposite new_composite) s;
               rel = relocateInvalidated s h page_id;
               s = repositionInvalidated (fst rel) (fst (snd rel)) (fst (snd (snd rel)))
                     (snd (snd (snd rel))) (old_size \<noteq> new_size);
               s = updateSceneRectInvalidated s h
           in (s, if m_pSelectionLeader s = Some h
                       \<and> (old_size \<noteq> new_size \<or> old_pos \<noteq> pos (composite (deref s h)))
                  then [emitNewSelectionLeader (pageInfo (deref s h)) (composite (deref s h))
                          {REDUNDANT_SELECTION}]
                  else [])))"

fun rebuild_loop :: "Visuals \<Rightarrow> handle list \<Rightarrow> real \<Rightarrow> Impl \<Rightarrow> Impl" where
  "rebuild_loop vis [] offset s = s"
| "rebuild_loop vis (h # hs) offset s =
     (let new_composite =
            setPos (0, offset)
              (getCompositeItem vis (pageInfo (deref s h)) (pageNum (deref s h)));
          s = s\<lparr>m_sceneRect := updateSceneRect new_composite (m_sceneRect s)\<rparr>;
          s = modifyItem h (setComposite new_composite) s
      in rebuild_loop vis hs (offset + ht (boundingRect new_composite) + SPACING) s)"

definition invalidateAllThumbnails :: "Impl \<Rightarrow> Visuals \<Rightarrow> Impl \<times> Signal list" where
  "invalidateAllThumbnails s vis =
     (let s = s\<lparr>m_sceneRect := \<lparr>xp = 0, yp = 0, wd = 0, ht = 0\<rparr>\<rparr>;
          s = (case m_ptrOrderProvider s of
                 Some prec \<Rightarrow>
                   s\<lparr>m_itemsInOrder :=
                       stable_sort (\<lambda>a b. prec (pageId (deref s a)) (pageId (deref s b)))
                         (m_itemsInOrder s)\<rparr>
               | None \<Rightarrow> s);
          s = rebuild_loop vis (m_itemsInOrder s) 0 s
      in (commitSceneRect s, []))"

subsection \<open>setSelection\<close>

text \<open>
  The loop of \<^verbatim>\<open>setSelection\<close> advances its iterator before it moves the current item
  to the end of the index, so it visits the items of the index as they stood at the
  start, in order; the items it has moved to the end are not selected and end the
  loop like the end of the index does.
\<close>

fun setSelection_loop :: "handle \<Rightarrow> handle list \<Rightarrow> Impl \<Rightarrow> Impl" where
  "setSelection_loop target [] s = s"
| "setSelection_loop target (h # hs) s =
     (if \<not> isSelected s h then s
      else if target \<noteq> h
      then (let s = moveToUnselected h (modifyItem h (setSelected False) s);
                s = (if m_pSelectionLeader s = Some h
                     then s\<lparr>m_pSelectionLeader := None\<rparr> else s)
            in setSelection_loop target hs s)
      else setSelection_loop target hs s)"

definition setSelection :: "Impl \<Rightarrow> PageId \<Rightarrow> Impl \<times> Signal list" where
  "setSelection s page_id =
     (case findById s page_id of
        None \<Rightarrow> (s, [])
      | Some h \<Rightarrow>
          (let was_selection_leader = (m_pSelectionLeader s = Some h);
               s = setSelection_loop h (m_selectedThenUnselected s) s;
               s = (if \<not> was_selection_leader
                    then moveToSelected h
                           (modifyItem h (setSelectionLeader True)
                              (s\<lparr>m_pSelectionLeader := Some h\<rparr>))
                    else s);
               flags = (if was_selection_leader then {REDUNDANT_SELECTION}
                        else DEFAULT_SELECTION_FLAGS)
           in (s, [emitNewSelectionLeader (pageInfo (deref s h)) (composite (deref s h))
                     flags])))"

subsection \<open>insert\<close>

datatype BeforeOrAfter = BEFORE | AFTER

function skipSameImage :: "Impl \<Rightarrow> ImageId \<Rightarrow> nat \<Rightarrow> nat" where
  "skipSameImage s img ord_it =
     (if ord_it < length (m_itemsInOrder s)
         \<and> PageInfo_imageId (pageInfo (deref s (m_itemsInOrder s ! ord_it))) = img
      then skipSameImage s img (ord_it + 1)
      else ord_it)"
  by pat_completeness auto
termination
  by (relation "measure (\<lambda>(s, img, ord_it). length (m_itemsInOrder s) - ord_it)") auto

declare skipSameImage.simps [simp del]

text \<open>
  The first part of \<^verbatim>\<open>insert\<close>: the position before which to insert, or nothing when
  the reference page is not found.
\<close>

definition insertHint :: "Impl \<Rightarrow> BeforeOrAfter \<Rightarrow> ImageId \<Rightarrow> nat option" where
  "insertHint s before_or_after img =
     (if before_or_after = BEFORE \<and> ImageId_isNull img
      then Some (length (m_itemsInOrder s))
      else (case lower_bound s (PageId img SINGLE_PAGE) of
              None \<Rightarrow> None
            | Some h \<Rightarrow>
                if PageInfo_imageId (pageInfo (deref s h)) \<noteq> img then None
                else (let ord_it = index_of h (m_itemsInOrder s)
                      in if before_or_after = AFTER
                         then (if m_ptrOrderProvider s = None
                               then Some (skipSameImage s img (ord_it + 1))
                               else Some (ord_it + 1))
                         else Some ord_it)))"

definition insert' ::
  "Impl \<Rightarrow> Visuals \<Rightarrow> PageInfo \<Rightarrow> BeforeOrAfter \<Rightarrow> ImageId \<Rightarrow> Impl \<times> Signal list" where
  "insert' s vis page_info before_or_after img =
     (case insertHint s before_or_after img of
        None \<Rightarrow> (s, [])
      | Some hint \<Rightarrow>
          (let n = length (m_itemsInOrder s);
               ord_it = fst (itemInsertPosition s 0 n (id' page_info) hint);
               page_num =
                 (if m_itemsInOrder s \<noteq> []
                  then pageNum (deref s (last (m_itemsInOrder s))) + 1 else 0);
               offset =
                 (if m_itemsInOrder s \<noteq> []
                  then (if ord_it \<noteq> n
                        then snd (pos (composite (deref s (m_itemsInOrder s ! ord_it))))
                        else (let c = composite (deref s (m_itemsInOrder s ! (ord_it - 1)))
                              in snd (pos c) + ht (boundingRect c) + SPACING))
                  else 0);
               c = setPos (0, offset) (getCompositeItem vis page_info page_num);
               s = s\<lparr>m_sceneRect := updateSceneRect c (m_sceneRect s)\<rparr>;
               pos_delta = (0, ht (boundingRect c) + SPACING);
               following = drop ord_it (m_itemsInOrder s);
               s = insertAt ord_it (Item_new page_info page_num c) s;
               s = shiftItems pos_delta following s
           in (commitSceneRect s, [])))"

subsection \<open>removePages\<close>

definition removePages_step ::
  "PageId set \<Rightarrow> handle \<Rightarrow> Impl \<times> real \<times> ImageId list \<Rightarrow> Impl \<times> real \<times> ImageId list" where
  "removePages_step to_remove h acc =
     (case acc of (s, dy, images_to_singularize) \<Rightarrow>
        if id' (pageInfo (deref s h)) \<notin> to_remove
        then (let s = (if dy \<noteq> 0
                       then modifyItem h (\<lambda>it. setComposite
                              (setPos (fst (pos (composite it)), snd (pos (composite it)) + dy)
                                 (composite it)) it) s
                       else s);
                  s = s\<lparr>m_sceneRect := updateSceneRect (composite (deref s h)) (m_sceneRect s)\<rparr>
              in (s, dy, images_to_singularize))
        else (let s = (if m_pSelectionLeader s = Some h
                       then s\<lparr>m_pSelectionLeader := None\<rparr> else s);
                  images_to_singularize =
                    (case subPage (id' (pageInfo (deref s h))) of
                       LEFT_PAGE \<Rightarrow>
                         images_to_singularize @ [PageInfo_imageId (pageInfo (deref s h))]
                     | RIGHT_PAGE \<Rightarrow>
                         images_to_singularize @ [PageInfo_imageId (pageInfo (deref s h))]
                     | SINGLE_PAGE \<Rightarrow> images_to_singularize);
                  dy = dy - (ht (boundingRect (composite (deref s h))) + SPACING)
              in (erase h s, dy, images_to_singularize)))"

fun removePages_loop ::
  "PageId set \<Rightarrow> handle list \<Rightarrow> Impl \<times> real \<times> ImageId list \<Rightarrow> Impl \<times> real \<times> ImageId list" where
  "removePages_loop to_remove [] acc = acc"
| "removePages_loop to_remove (h # hs) acc =
     removePages_loop to_remove hs (removePages_step to_remove h acc)"

text \<open>
  The items the inner loop visits for one image: from
  \<^verbatim>\<open>lower_bound(PageId(image_id))\<close> in the identity index for as long as the image is
  \<^verbatim>\<open>image_id\<close>.  A modified item takes the least identity of its image and so stays
  in front of the items still to be visited.
\<close>

definition sameImageRange :: "Impl \<Rightarrow> ImageId \<Rightarrow> handle list" where
  "sameImageRange s image_id =
     takeWhile (\<lambda>h. PageInfo_imageId (pageInfo (deref s h)) = image_id)
       (dropWhile (\<lambda>h. \<not> PageId_key (PageId image_id SINGLE_PAGE)
                            \<le> PageId_key (pageId (deref s h)))
          (itemsById s))"

fun singularize_loop :: "ImageId \<Rightarrow> handle list \<Rightarrow> Impl \<Rightarrow> error + Impl" where
  "singularize_loop image_id [] s = Inr s"
| "singularize_loop image_id (h # hs) s =
     (case modify h (PageId image_id SINGLE_PAGE) s of
        Inl e \<Rightarrow> Inl e
      | Inr s' \<Rightarrow> singularize_loop image_id hs s')"

fun singularize :: "ImageId list \<Rightarrow> Impl \<Rightarrow> error + Impl" where
  "singularize [] s = Inr s"
| "singularize (image_id # rest) s =
     (case singularize_loop image_id (sameImageRange s image_id) s of
        Inl e \<Rightarrow> Inl e
      | Inr s' \<Rightarrow> singularize rest s')"

definition removePages :: "Impl \<Rightarrow> PageId set \<Rightarrow> error + Impl \<times> Signal list" where
  "removePages s to_remove =
     (let s = s\<lparr>m_sceneRect := \<lparr>xp = 0, yp = 0, wd = 0, ht = 0\<rparr>\<rparr>;
          looped = removePages_loop to_remove (m_itemsInOrder s) (s, 0, [])
      in (case singularize (snd (snd looped)) (fst looped) of
            Inl e \<Rightarrow> Inl e
          | Inr s' \<Rightarrow> Inr (commitSceneRect s', [])))"

subsection \<open>Clicks\<close>

definition selectItemNoModifiers :: "Impl \<Rightarrow> handle \<Rightarrow> Impl \<times> Signal list" where
  "selectItemNoModifiers s h =
     (let flags = (if m_pSelectionLeader s = Some h
                   then {SELECTED_BY_USER, REDUNDANT_SELECTION} else {SELECTED_BY_USER});
          s = clearSelection s;
          s = s\<lparr>m_pSelectionLeader := Some h\<rparr>;
          s = modifyItem h (setSelectionLeader True) s;
          s = moveToSelected h s
      in (s, [emitNewSelectionLeader (pageInfo (deref s h)) (composite (deref s h)) flags]))"

text \<open>
  The search for a new leader in \<^verbatim>\<open>selectItemWithControl\<close>: a \<^verbatim>\<open>for (;;)\<close> with two
  cursors into the display order, left only by \<^verbatim>\<open>break\<close>.  \<open>None\<close> is the loop that
  never breaks.
\<close>

partial_function (option) pickLeader :: "(handle \<Rightarrow> bool) \<Rightarrow> handle list \<Rightarrow> nat \<Rightarrow> nat \<Rightarrow> handle option" where
  "pickLeader sel xs ord_it1 ord_it2 =
     (if ord_it1 \<noteq> 0 \<and> sel (xs ! (ord_it1 - 1)) then Some (xs ! (ord_it1 - 1))
      else if ord_it2 \<noteq> length xs \<and> ord_it2 + 1 \<noteq> length xs \<and> sel (xs ! (ord_it2 + 1))
      then Some (xs ! (ord_it2 + 1))
      else pickLeader sel xs
             (if ord_it1 \<noteq> 0 then ord_it1 - 1 else ord_it1)
             (if ord_it2 \<noteq> length xs then ord_it2 + 1 else ord_it2))"

definition selectItemWithControl :: "Impl \<Rightarrow> handle \<Rightarrow> error + Impl \<times> Signal list" where
  "selectItemWithControl s h =
     (if \<not> isSelected s h
      then (let s = (case m_pSelectionLeader s of
                       Some l \<Rightarrow> modifyItem l (setSelectionLeader False) s
                     | None \<Rightarrow> s);
                s = s\<lparr>m_pSelectionLeader := Some h\<rparr>;
                s = modifyItem h (setSelectionLeader True) s;
                s = moveToSelected h s
            in Inr (s, [emitNewSelectionLeader (pageInfo (deref s h)) (composite (deref s h))
                          {SELECTED_BY_USER}]))
      else if \<not> multipleItemsSelected s
      then (case m_pSelectionLeader s of
              None \<Rightarrow> Inl NullDereference
            | Some l \<Rightarrow>
                Inr (s, [emitNewSelectionLeader (pageInfo (deref s l)) (composite (deref s l))
                           {SELECTED_BY_USER, REDUNDANT_SELECTION}]))
      else (let s = moveToUnselected h (modifyItem h (setSelected False) s)
            in if m_pSelectionLeader s \<noteq> Some h then Inr (s, [])
               else (case pickLeader (isSelected s) (m_itemsInOrder s)
                            (index_of h (m_itemsInOrder s)) (index_of h (m_itemsInOrder s)) of
                       None \<Rightarrow> Inl NoReturn
                     | Some l \<Rightarrow>
                         (let s = modifyItem l (setSelectionLeader True)
                                    (s\<lparr>m_pSelectionLeader := Some l\<rparr>)
                          in Inr (s, [emitNewSelectionLeader (pageInfo (deref s l))
                                        (composite (deref s l))
                                        {SELECTED_BY_USER, AVOID_SCROLLING_TO}])))))"

text \<open>
  The loop of \<^verbatim>\<open>selectItemWithShift\<close> that finds on which side of the leader the
  clicked item is: \<open>Some True\<close> when it breaks after \<^verbatim>\<open>std::swap\<close>, \<open>Some False\<close>
  when it breaks without.
\<close>

partial_function (option) findEndpoint :: "nat \<Rightarrow> nat \<Rightarrow> nat \<Rightarrow> nat \<Rightarrow> bool option" where
  "findEndpoint n endpoint2 ord_it1 ord_it2 =
     (if ord_it1 \<noteq> 0 \<and> ord_it1 - 1 = endpoint2 then Some True
      else if ord_it2 \<noteq> n \<and> ord_it2 + 1 \<noteq> n \<and> ord_it2 + 1 = endpoint2 then Some False
      else findEndpoint n endpoint2
             (if ord_it1 \<noteq> 0 then ord_it1 - 1 else ord_it1)
             (if ord_it2 \<noteq> n then ord_it2 + 1 else ord_it2))"

fun selectRange :: "handle list \<Rightarrow> Impl \<Rightarrow> Impl" where
  "selectRange [] s = s"
| "selectRange (h # hs) s =
     selectRange hs (moveToSelected h (modifyItem h (setSelected True) s))"

definition selectItemWithShift :: "Impl \<Rightarrow> handle \<Rightarrow> error + Impl \<times> Signal list" where
  "selectItemWithShift s h =
     (case m_pSelectionLeader s of
        None \<Rightarrow> Inr (selectItemNoModifiers s h)
      | Some l \<Rightarrow>
          (let flags = (if l = h then {SELECTED_BY_USER, REDUNDANT_SELECTION}
                        else {SELECTED_BY_USER});
               endpoint1 = index_of l (m_itemsInOrder s);
               endpoint2 = index_of h (m_itemsInOrder s)
           in if endpoint1 = endpoint2 then Inr (s, [])
              else (case findEndpoint (length (m_itemsInOrder s)) endpoint2 endpoint1 endpoint1 of
                      None \<Rightarrow> Inl NoReturn
                    | Some swapped \<Rightarrow>
                        (let first = (if swapped then endpoint2 else endpoint1);
                             final = (if swapped then endpoint1 else endpoint2) + 1;
                             s = selectRange
                                   (take (final - first) (drop first (m_itemsInOrder s))) s;
                             s = modifyItem l (setSelectionLeader False) s;
                             s = s\<lparr>m_pSelectionLeader := Some h\<rparr>;
                             s = modifyItem h (setSelectionLeader True) s
                         in Inr (s, [emitNewSelectionLeader (pageInfo (deref s h))
                                       (composite (deref s h)) flags])))))"

datatype KeyboardModifier = ShiftModifier | ControlModifier | AltModifier | MetaModifier

text \<open>
  \<^verbatim>\<open>itemSelectedByUser\<close> receives the composite that was clicked; \<open>h\<close> is the item
  that composite belongs to.
\<close>

definition itemSelectedByUser ::
  "Impl \<Rightarrow> handle \<Rightarrow> KeyboardModifier set \<Rightarrow> error + Impl \<times> Signal list" where
  "itemSelectedByUser s h modifiers =
     (if ControlModifier \<in> modifiers then selectItemWithControl s h
      else if ShiftModifier \<in> modifiers then selectItemWithShift s h
      else Inr (selectItemNoModifiers s h))"

subsection \<open>Context menu of the scene\<close>

record QGraphicsSceneContextMenuEvent =
  scenePos :: QPointF
  screenPos :: QPoint

definition sceneContextMenuEvent :: "Impl \<Rightarrow> QGraphicsSceneContextMenuEvent \<Rightarrow> Signal list" where
  "sceneContextMenuEvent s evt =
     (if m_itemsInOrder s \<noteq> []
         \<and> snd (scenePos evt)
             \<le> QRectF_bottom (sceneBoundingRect (composite (deref s (last (m_itemsInOrder s)))))
      then []
      else [pastLastPageContextMenuRequested (screenPos evt)])"

subsection \<open>Reachable states\<close>

text \<open>
  The states of the controller: the state after construction and every state in
  which a public operation returns.  A click is on the composite of an item of the
  container.
\<close>

inductive reachable :: "Impl \<Rightarrow> bool" where
  reach_init: "reachable Impl_init"
| reach_reset:
    "reachable s \<Longrightarrow> reachable (fst (reset s vis pages selection_action order_provider))"
| reach_insert:
    "reachable s \<Longrightarrow> reachable (fst (insert' s vis new_page before_or_after img))"
| reach_removePages:
    "reachable s \<Longrightarrow> removePages s to_remove = Inr (s', sigs) \<Longrightarrow> reachable s'"
| reach_invalidateThumbnail:
    "reachable s \<Longrightarrow> reachable (fst (invalidateThumbnail s vis page_id))"
| reach_invalidateAllThumbnails:
    "reachable s \<Longrightarrow> reachable (fst (invalidateAllThumbnails s vis))"
| reach_setSelection:
    "reachable s \<Longrightarrow> reachable (fst (setSelection s page_id))"
| reach_click:
    "reachable s \<Longrightarrow> h \<in> set (m_itemsInOrder s)
       \<Longrightarrow> itemSelectedByUser s h modifiers = Inr (s', sigs)
       \<Longrightarrow> reachable s'"

text \<open>
  The reachable states when no snapshot handed to \<^verbatim>\<open>reset\<close> holds a page with a null
  identity (a null \<^verbatim>\<open>PageInfo\<close> is what \<^verbatim>\<open>reset\<close> itself uses for ``no leader'').
\<close>

inductive reachable_nonnull :: "Impl \<Rightarrow> bool" where
  nn_init: "reachable_nonnull Impl_init"
| nn_reset:
    "reachable_nonnull s \<Longrightarrow> list_all (\<lambda>p. \<not> PageInfo_isNull p) (snapshotPages pages)
       \<Longrightarrow> reachable_nonnull (fst (reset s vis pages selection_action order_provider))"
| nn_insert:
    "reachable_nonnull s \<Longrightarrow> reachable_nonnull (fst (insert' s vis new_page before_or_after img))"
| nn_removePages:
    "reachable_nonnull s \<Longrightarrow> removePages s to_remove = Inr (s', sigs) \<Longrightarrow> reachable_nonnull s'"
| nn_invalidateThumbnail:
    "reachable_nonnull s \<Longrightarrow> reachable_nonnull (fst (invalidateThumbnail s vis page_id))"
| nn_invalidateAllThumbnails:
    "reachable_nonnull s \<Longrightarrow> reachable_nonnull (fst (invalidateAllThumbnails s vis))"
| nn_setSelection:
    "reachable_nonnull s \<Longrightarrow> reachable_nonnull (fst (setSelection s page_id))"
| nn_click:
    "reachable_nonnull s \<Longrightarrow> h \<in> set (m_itemsInOrder s)
       \<Longrightarrow> itemSelectedByUser s h modifiers = Inr (s', sigs)
       \<Longrightarrow> reachable_nonnull s'"

declare pickLeader.simps [code] findEndpoint.simps [code]

subsection \<open>Invariants\<close>

text \<open>
  The three views hold the same live items, each once (\<open>store_ok\<close>); the identity
  index has no identity twice (\<open>ids_ok\<close>); the leader is an item of the container
  and is selected (\<open>leader_ok\<close>); in the selection index no item that is not
  selected comes before a selected one (\<open>partitioned\<close>).
\<close>

definition store_ok :: "Impl \<Rightarrow> bool" where
  "store_ok s =
     (distinct (m_itemsInOrder s) \<and> distinct (m_selectedThenUnselected s)
      \<and> set (m_selectedThenUnselected s) = set (m_itemsInOrder s)
      \<and> list_all (\<lambda>h. m_items s h \<noteq> None) (m_itemsInOrder s))"

definition ids_ok :: "Impl \<Rightarrow> bool" where
  "ids_ok s = distinct (orderIds s)"

definition leader_ok :: "Impl \<Rightarrow> bool" where
  "leader_ok s =
     (case m_pSelectionLeader s of
        None \<Rightarrow> True
      | Some h \<Rightarrow> h \<in> set (m_itemsInOrder s) \<and> isSelected s h)"

definition partitioned :: "Impl \<Rightarrow> bool" where
  "partitioned s =
     list_all (\<lambda>h. \<not> isSelected s h)
       (dropWhile (isSelected s) (m_selectedThenUnselected s))"

text \<open>
  The designation of pages by the document model: an image is either one
  \<^verbatim>\<open>SINGLE_PAGE\<close> or the halves of a two-sided scan, so no \<^verbatim>\<open>SINGLE_PAGE\<close> item shares
  its image with another item.
\<close>

definition imageOf :: "Impl \<Rightarrow> handle \<Rightarrow> ImageId" where
  "imageOf s h = PageInfo_imageId (pageInfo (deref s h))"

definition twoSided_ok :: "Impl \<Rightarrow> bool" where
  "twoSided_ok s =
     list_all (\<lambda>a. list_all (\<lambda>b. a = b \<or> imageOf s a \<noteq> imageOf s b
                                   \<or> subPage (pageId (deref s a)) \<noteq> SINGLE_PAGE)
                  (m_itemsInOrder s))
       (m_itemsInOrder s)"

subsection \<open>Example inputs\<close>

definition ex_page :: "string \<Rightarrow> SubPage \<Rightarrow> PageInfo" where
  "ex_page f sp = \<lparr>id' = PageId (ImageId f 0) sp, isMultiPageFile = False\<rparr>"

definition ex_vis :: Visuals where
  "ex_vis page_info page_num =
     (\<lparr>xp = - 50, yp = 0, wd = 100, ht = 120\<rparr>, \<lparr>xp = - 50, yp = 0, wd = 100, ht = 140\<rparr>)"

definition ex_order :: PageOrderProvider where
  "ex_order a b = (PageId_key a < PageId_key b)"

definition ex_snapshot :: PageSequenceSnapshot where
  "ex_snapshot =
     \<lparr>snapshotPages = [ex_page ''a'' SINGLE_PAGE, ex_page ''b'' LEFT_PAGE,
                       ex_page ''b'' RIGHT_PAGE, ex_page ''c'' SINGLE_PAGE],
      curPage = ex_page ''a'' SINGLE_PAGE\<rparr>"

text \<open>Four pages after a reset without an order provider: the first one is the leader.\<close>

definition ex_state :: Impl where
  "ex_state = fst (reset Impl_init ex_vis ex_snapshot RESET_SELECTION None)"

text \<open>Two items in a container with an order provider.\<close>

definition ex_ordered :: Impl where
  "ex_ordered =
     Impl_init\<lparr>m_items :=
                 [1 \<mapsto> Item_new (ex_page ''a'' SINGLE_PAGE) 0 (getCompositeItem ex_vis PageInfo_null 0),
                  2 \<mapsto> Item_new (ex_page ''c'' SINGLE_PAGE) 1 (getCompositeItem ex_vis PageInfo_null 1)],
               m_itemsInOrder := [1, 2], m_selectedThenUnselected := [1, 2],
               m_ptrOrderProvider := Some ex_order\<rparr>"

text \<open>The state after a ctrl-click on the second item: two selected items, the second leads.\<close>

definition ex_two :: Impl where
  "ex_two = (case selectItemWithControl ex_state 2 of Inr (s, sigs) \<Rightarrow> s | Inl e \<Rightarrow> ex_state)"

text \<open>
  The state after ctrl-clicks on the third and then the second item: the first three
  items are selected and the second, between the other two, leads.
\<close>

definition ex_three :: Impl where
  "ex_three =
     (case selectItemWithControl ex_state 3 of
        Inr (s, sigs) \<Rightarrow>
          (case selectItemWithControl s 2 of Inr (s', sigs') \<Rightarrow> s' | Inl e \<Rightarrow> ex_state)
      | Inl e \<Rightarrow> ex_state)"

text \<open>A snapshot whose second page carries the identity of a default \<^verbatim>\<open>PageInfo()\<close>.\<close>

definition ex_null_snapshot :: PageSequenceSnapshot where
  "ex_null_snapshot =
     \<lparr>snapshotPages = [ex_page ''a'' SINGLE_PAGE, PageInfo_null],
      curPage = ex_page ''a'' SINGLE_PAGE\<rparr>"

subsection \<open>Auxiliary notions for the proofs\<close>

text \<open>
  \<open>sameSelection s s'\<close>: \<open>s'\<close> differs from \<open>s\<close> at most in the geometry, the page
  data and the arrangement of the display order.
\<close>

definition sameSelection :: "Impl \<Rightarrow> Impl \<Rightarrow> bool" where
  "sameSelection s s' =
     (m_selectedThenUnselected s' = m_selectedThenUnselected s
      \<and> m_pSelectionLeader s' = m_pSelectionLeader s
      \<and> mset (m_itemsInOrder s') = mset (m_itemsInOrder s)
      \<and> (\<forall>h. isSelected s' h = isSelected s h)
      \<and> (\<forall>h. (m_items s' h = None) = (m_items s h = None)))"

text \<open>What the loop of \<^verbatim>\<open>reset\<close> maintains for the leader and \<^verbatim>\<open>some_selected_item\<close>.\<close>

definition reset_inv :: "Impl \<times> handle option \<times> real \<Rightarrow> bool" where
  "reset_inv acc =
     (store_ok (fst acc)
      \<and> (\<forall>h. m_pSelectionLeader (fst acc) = Some h \<longrightarrow> h \<in> set (m_itemsInOrder (fst acc)))
      \<and> (\<forall>h. fst (snd acc) = Some h \<longrightarrow> h \<in> set (m_itemsInOrder (fst acc))))"

text \<open>
  What the loop of \<^verbatim>\<open>reset\<close> maintains for the partition: the leader and
  \<^verbatim>\<open>some_selected_item\<close> are selected items of the container.
\<close>

definition reset_part_inv :: "Impl \<times> handle option \<times> real \<Rightarrow> bool" where
  "reset_part_inv acc =
     (store_ok (fst acc) \<and> partitioned (fst acc)
      \<and> (\<forall>h. m_pSelectionLeader (fst acc) = Some h
             \<longrightarrow> h \<in> set (m_itemsInOrder (fst acc)) \<and> isSelected (fst acc) h)
      \<and> (\<forall>h. fst (snd acc) = Some h
             \<longrightarrow> h \<in> set (m_itemsInOrder (fst acc)) \<and> isSelected (fst acc) h))"

text \<open>
  What the loop of \<^verbatim>\<open>reset\<close> maintains for the selection: \<open>D\<close> is the set of the
  identities inserted so far, an item is selected exactly when its identity was selected
  before, and \<^verbatim>\<open>some_selected_item\<close> is set as soon as one is.
\<close>

definition reset_sel_inv :: "PageId set \<Rightarrow> PageId set \<Rightarrow> Impl \<times> handle option \<times> real \<Rightarrow> bool" where
  "reset_sel_inv selected D acc =
     ((\<lambda>h. pageId (deref (fst acc) h)) ` set (m_itemsInOrder (fst acc)) = D
      \<and> (\<forall>h \<in> set (m_itemsInOrder (fst acc)).
            isSelected (fst acc) h = (pageId (deref (fst acc) h) \<in> selected))
      \<and> (fst (snd acc) = None \<longrightarrow> selected \<inter> D = {}))"

text \<open>At most one item of the container refers to the image.\<close>

definition atMostOne :: "Impl \<Rightarrow> ImageId \<Rightarrow> bool" where
  "atMostOne s X =
     (\<forall>a \<in> set (m_itemsInOrder s). \<forall>b \<in> set (m_itemsInOrder s).
        imageOf s a = X \<and> imageOf s b = X \<longrightarrow> a = b)"

text \<open>A list is partitioned by \<open>P\<close>: no element without \<open>P\<close> comes before one with \<open>P\<close>.\<close>

definition part :: "('a \<Rightarrow> bool) \<Rightarrow> 'a list \<Rightarrow> bool" where
  "part P xs = list_all (\<lambda>x. \<not> P x) (dropWhile P xs)"

section \<open>Properties\<close>

subsection \<open>The insertion position\<close>

lemma moveBack_spec:
  assumes "bgn \<le> i"
  shows "\<exists>q. moveBack prec ids bgn pid i d = (q, d - (int i - int q)) \<and> bgn \<le> q \<and> q \<le> i
           \<and> (q = bgn \<or> \<not> prec pid (ids ! q))"
  using assms
proof (induction prec ids bgn pid i d rule: moveBack.induct)
  case (1 prec ids bgn pid i d)
  show ?case
  proof (cases "bgn < i \<and> prec pid (ids ! i)")
    case True
    then have "bgn \<le> i - 1" by linarith
    from "1.IH" [OF True this] obtain q where
      q: "moveBack prec ids bgn pid (i - 1) (d - 1) = (q, d - 1 - (int (i - 1) - int q))"
         "bgn \<le> q" "q \<le> i - 1" "q = bgn \<or> \<not> prec pid (ids ! q)"
      by blast
    from True q have "moveBack prec ids bgn pid i d = (q, d - (int i - int q))"
      by (subst moveBack.simps) (simp add: of_nat_diff)
    with q show ?thesis by (intro exI [of _ q]) simp
  next
    case False
    then have "moveBack prec ids bgn pid i d = (i, d)"
      by (subst moveBack.simps) auto
    with False "1.prems" show ?thesis by (intro exI [of _ i]) auto
  qed
qed

lemma advance_spec:
  assumes "i \<le> en"
  shows "\<exists>p. advance prec ids en pid i d = (p, d + (int p - int i)) \<and> i \<le> p \<and> p \<le> en
           \<and> (p = en \<or> prec pid (ids ! p))
           \<and> (p = i \<or> \<not> prec pid (ids ! (p - 1)))"
  using assms
proof (induction prec ids en pid i d rule: advance.induct)
  case (1 prec ids en pid i d)
  show ?case
  proof (cases "i < en \<and> \<not> prec pid (ids ! i)")
    case True
    then have "i + 1 \<le> en" by simp
    from "1.IH" [OF True this] obtain p where
      p: "advance prec ids en pid (i + 1) (d + 1) = (p, d + 1 + (int p - int (i + 1)))"
         "i + 1 \<le> p" "p \<le> en" "p = en \<or> prec pid (ids ! p)"
         "p = i + 1 \<or> \<not> prec pid (ids ! (p - 1))"
      by blast
    from True p have "advance prec ids en pid i d = (p, d + (int p - int i))"
      by (subst advance.simps) simp
    moreover from True p have "\<not> prec pid (ids ! (p - 1))" by auto
    ultimately show ?thesis using p by (intro exI [of _ p]) simp
  next
    case False
    then have "advance prec ids en pid i d = (i, d)"
      by (subst advance.simps) auto
    with False "1.prems" show ?thesis by (intro exI [of _ i]) auto
  qed
qed

text \<open>
  Claim C5.  For a hint within \<open>[bgn, en]\<close>: without an order provider
  \<^verbatim>\<open>itemInsertPosition\<close> returns the hint and the distance 0; with an order provider
  \<open>prec\<close> the returned position \<open>p\<close> lies in \<open>[bgn, en]\<close>, is \<open>en\<close> or holds an
  identity that the new page precedes, is \<open>bgn\<close> or follows an identity that the new
  page does not precede, and the distance written is the signed number of positions
  from the hint to \<open>p\<close>.  (Neither the sortedness of the range nor the order axioms
  are needed for these facts.)
\<close>

theorem itemInsertPosition_spec:
  assumes "bgn \<le> hint" and "hint \<le> en"
  shows "(m_ptrOrderProvider s = None \<longrightarrow>
            itemInsertPosition s bgn en page_id hint = (hint, 0))
       \<and> (\<forall>prec. m_ptrOrderProvider s = Some prec \<longrightarrow>
            (\<exists>p. itemInsertPosition s bgn en page_id hint = (p, int p - int hint)
               \<and> bgn \<le> p \<and> p \<le> en
               \<and> (p = en \<or> prec page_id (orderIds s ! p))
               \<and> (p = bgn \<or> \<not> prec page_id (orderIds s ! (p - 1)))))"
proof (intro conjI allI impI)
  assume "m_ptrOrderProvider s = None"
  then show "itemInsertPosition s bgn en page_id hint = (hint, 0)"
    by (simp add: itemInsertPosition_def)
next
  fix prec
  assume prov: "m_ptrOrderProvider s = Some prec"
  define ids where "ids = orderIds s"
  define moved where "moved =
    (if hint \<noteq> bgn
     then (if hint = en then moveBack prec ids bgn page_id (hint - 1) (- 1)
           else moveBack prec ids bgn page_id hint 0)
     else (hint, 0))"
  have res: "itemInsertPosition s bgn en page_id hint
               = advance prec ids en page_id (fst moved) (snd moved)"
    by (simp add: itemInsertPosition_def prov ids_def moved_def Let_def)
  have "\<exists>q. moved = (q, int q - int hint) \<and> bgn \<le> q \<and> q \<le> hint \<and> (hint \<noteq> bgn \<longrightarrow> q < en)
            \<and> (q = bgn \<or> \<not> prec page_id (ids ! q))"
  proof (cases "hint = bgn")
    case True
    then show ?thesis by (simp add: moved_def)
  next
    case False
    show ?thesis
    proof (cases "hint = en")
      case True
      with False assms have le: "bgn \<le> hint - 1" by simp
      from moveBack_spec [OF le, of prec ids page_id "- 1"] obtain q where
        "moveBack prec ids bgn page_id (hint - 1) (- 1) = (q, - 1 - (int (hint - 1) - int q))"
        "bgn \<le> q" "q \<le> hint - 1" "q = bgn \<or> \<not> prec page_id (ids ! q)"
        by blast
      with False True assms show ?thesis
        by (intro exI [of _ q]) (auto simp: moved_def of_nat_diff)
    next
      case hne: False
      from moveBack_spec [OF assms(1), of prec ids page_id 0] obtain q where
        "moveBack prec ids bgn page_id hint 0 = (q, 0 - (int hint - int q))"
        "bgn \<le> q" "q \<le> hint" "q = bgn \<or> \<not> prec page_id (ids ! q)"
        by blast
      with False hne assms show ?thesis
        by (intro exI [of _ q]) (auto simp: moved_def)
    qed
  qed
  then obtain q where q: "moved = (q, int q - int hint)" "bgn \<le> q" "q \<le> hint"
      "hint \<noteq> bgn \<longrightarrow> q < en" "q = bgn \<or> \<not> prec page_id (ids ! q)"
    by blast
  from q assms have "q \<le> en" by simp
  from advance_spec [OF this, of prec ids page_id "int q - int hint"] obtain p where
    p: "advance prec ids en page_id q (int q - int hint) = (p, int q - int hint + (int p - int q))"
       "q \<le> p" "p \<le> en" "p = en \<or> prec page_id (ids ! p)"
       "p = q \<or> \<not> prec page_id (ids ! (p - 1))"
    by blast
  have "p = bgn \<or> \<not> prec page_id (ids ! (p - 1))"
  proof (cases "p = q")
    case True
    show ?thesis
    proof (cases "q = bgn")
      case True
      with \<open>p = q\<close> show ?thesis by simp
    next
      case False
      with q have nq: "\<not> prec page_id (ids ! q)" and "q < en"
        using assms by auto
      with p True show ?thesis by auto
    qed
  next
    case False
    with p show ?thesis by simp
  qed
  with p q show "\<exists>p. itemInsertPosition s bgn en page_id hint = (p, int p - int hint)
               \<and> bgn \<le> p \<and> p \<le> en
               \<and> (p = en \<or> prec page_id (orderIds s ! p))
               \<and> (p = bgn \<or> \<not> prec page_id (orderIds s ! (p - 1)))"
    by (intro exI [of _ p]) (simp add: res ids_def)
qed


theorem itemInsertPosition_spec_witness:
  "(0::nat) \<le> 2 \<and> (2::nat) \<le> 2
   \<and> itemInsertPosition ex_ordered 0 2 (id' (ex_page ''b'' LEFT_PAGE)) 2 = (1, - 1)
   \<and> \<not> ex_order (id' (ex_page ''b'' LEFT_PAGE)) (orderIds ex_ordered ! 0)
   \<and> ex_order (id' (ex_page ''b'' LEFT_PAGE)) (orderIds ex_ordered ! 1)"
proof -
  have prov: "m_ptrOrderProvider ex_ordered = Some ex_order"
    by (simp add: ex_ordered_def)
  have ids0: "orderIds ex_ordered ! 0 = id' (ex_page ''a'' SINGLE_PAGE)"
    and ids1: "orderIds ex_ordered ! 1 = id' (ex_page ''c'' SINGLE_PAGE)"
    by (simp_all add: orderIds_def ex_ordered_def deref_def pageId_def Item_new_def)
  have o0: "\<not> ex_order (id' (ex_page ''b'' LEFT_PAGE)) (id' (ex_page ''a'' SINGLE_PAGE))"
    and o1: "ex_order (id' (ex_page ''b'' LEFT_PAGE)) (id' (ex_page ''c'' SINGLE_PAGE))"
    by (simp_all add: ex_order_def ex_page_def PageId_key_def)
  from itemInsertPosition_spec [of 0 2 2 ex_ordered "id' (ex_page ''b'' LEFT_PAGE)"] prov
  obtain p where p: "itemInsertPosition ex_ordered 0 2 (id' (ex_page ''b'' LEFT_PAGE)) 2
                       = (p, int p - int 2)"
      "p \<le> 2" "p = 2 \<or> ex_order (id' (ex_page ''b'' LEFT_PAGE)) (orderIds ex_ordered ! p)"
      "p = 0 \<or> \<not> ex_order (id' (ex_page ''b'' LEFT_PAGE)) (orderIds ex_ordered ! (p - 1))"
    by auto
  have "p = 1"
  proof -
    from p(2) consider "p = 0" | "p = 1" | "p = 2" by linarith
    then show ?thesis
    proof cases
      case 1
      with p(3) ids0 o0 show ?thesis by simp
    next
      case 2
      then show ?thesis .
    next
      case 3
      with p(4) ids1 o1 show ?thesis by simp
    qed
  qed
  with p(1) ids0 ids1 o0 o1 show ?thesis by simp
qed

subsection \<open>Basic facts about the state\<close>

lemma isSelected_cong: "m_items s' = m_items s \<Longrightarrow> isSelected s' h = isSelected s h"
  by (simp add: isSelected_def)

lemma deref_cong: "m_items s' = m_items s \<Longrightarrow> deref s' h = deref s h"
  by (simp add: deref_def)

lemma isSelected_update [simp]:
  "isSelected (s\<lparr>m_pSelectionLeader := l\<rparr>) h = isSelected s h"
  "isSelected (s\<lparr>m_sceneRect := r\<rparr>) h = isSelected s h"
  "isSelected (s\<lparr>graphicsSceneRect := r\<rparr>) h = isSelected s h"
  "isSelected (s\<lparr>m_itemsInOrder := xs\<rparr>) h = isSelected s h"
  "isSelected (s\<lparr>m_selectedThenUnselected := xs\<rparr>) h = isSelected s h"
  "isSelected (s\<lparr>m_ptrOrderProvider := p\<rparr>) h = isSelected s h"
  by (simp_all add: isSelected_def)

lemma deref_update [simp]:
  "deref (s\<lparr>m_pSelectionLeader := l\<rparr>) h = deref s h"
  "deref (s\<lparr>m_sceneRect := r\<rparr>) h = deref s h"
  "deref (s\<lparr>graphicsSceneRect := r\<rparr>) h = deref s h"
  "deref (s\<lparr>m_itemsInOrder := xs\<rparr>) h = deref s h"
  "deref (s\<lparr>m_selectedThenUnselected := xs\<rparr>) h = deref s h"
  "deref (s\<lparr>m_ptrOrderProvider := p\<rparr>) h = deref s h"
  by (simp_all add: deref_def)

lemma modifyItem_fields [simp]:
  "m_itemsInOrder (modifyItem h f s) = m_itemsInOrder s"
  "m_selectedThenUnselected (modifyItem h f s) = m_selectedThenUnselected s"
  "m_pSelectionLeader (modifyItem h f s) = m_pSelectionLeader s"
  "m_ptrOrderProvider (modifyItem h f s) = m_ptrOrderProvider s"
  "m_sceneRect (modifyItem h f s) = m_sceneRect s"
  "graphicsSceneRect (modifyItem h f s) = graphicsSceneRect s"
  by (simp_all add: modifyItem_def)

lemma m_items_modifyItem:
  "m_items (modifyItem h f s) h' = (if h' = h then map_option f (m_items s h) else m_items s h')"
  by (simp add: modifyItem_def)

lemma m_items_modifyItem_None [simp]:
  "(m_items (modifyItem h f s) h' = None) = (m_items s h' = None)"
  by (simp add: modifyItem_def)

lemma isSelected_modifyItem:
  "isSelected (modifyItem h f s) h' =
     (if h' = h \<and> m_items s h \<noteq> None then m_isSelected (f (deref s h)) else isSelected s h')"
  by (auto simp: isSelected_def modifyItem_def deref_def split: option.splits)

lemma isSelected_setSelected [simp]:
  "isSelected (modifyItem h (setSelected b) s) h' =
     (if h' = h \<and> m_items s h \<noteq> None then b else isSelected s h')"
  by (auto simp: isSelected_modifyItem setSelected_def)

lemma isSelected_setSelectionLeader [simp]:
  "isSelected (modifyItem h (setSelectionLeader b) s) h' =
     (if h' = h \<and> m_items s h \<noteq> None then (isSelected s h \<or> b) else isSelected s h')"
  by (auto simp: isSelected_def modifyItem_def setSelectionLeader_def split: option.splits)

lemma pageInfo_setSelected [simp]:
  "pageInfo (setSelected b it) = pageInfo it" "composite (setSelected b it) = composite it"
  "pageInfo (setSelectionLeader b it) = pageInfo it"
  "composite (setSelectionLeader b it) = composite it"
  by (simp_all add: setSelected_def setSelectionLeader_def)

lemma deref_modifyItem:
  "deref (modifyItem h f s) h' =
     (if h' = h then the (map_option f (m_items s h)) else deref s h')"
  by (simp add: deref_def modifyItem_def)

lemma deref_modifyItem_live:
  "m_items s h \<noteq> None \<Longrightarrow> deref (modifyItem h f s) h' = (if h' = h then f (deref s h) else deref s h')"
  by (auto simp: deref_def modifyItem_def)

lemma moveToSelected_fields [simp]:
  "m_items (moveToSelected h s) = m_items s"
  "m_itemsInOrder (moveToSelected h s) = m_itemsInOrder s"
  "m_selectedThenUnselected (moveToSelected h s) = h # remove1 h (m_selectedThenUnselected s)"
  "m_pSelectionLeader (moveToSelected h s) = m_pSelectionLeader s"
  "m_ptrOrderProvider (moveToSelected h s) = m_ptrOrderProvider s"
  "isSelected (moveToSelected h s) h' = isSelected s h'"
  "deref (moveToSelected h s) h' = deref s h'"
  by (simp_all add: moveToSelected_def isSelected_def deref_def)

lemma moveToUnselected_fields [simp]:
  "m_items (moveToUnselected h s) = m_items s"
  "m_itemsInOrder (moveToUnselected h s) = m_itemsInOrder s"
  "m_selectedThenUnselected (moveToUnselected h s) = remove1 h (m_selectedThenUnselected s) @ [h]"
  "m_pSelectionLeader (moveToUnselected h s) = m_pSelectionLeader s"
  "m_ptrOrderProvider (moveToUnselected h s) = m_ptrOrderProvider s"
  "isSelected (moveToUnselected h s) h' = isSelected s h'"
  "deref (moveToUnselected h s) h' = deref s h'"
  by (simp_all add: moveToUnselected_def isSelected_def deref_def)

lemma store_ok_live: "store_ok s \<Longrightarrow> h \<in> set (m_itemsInOrder s) \<Longrightarrow> m_items s h \<noteq> None"
  by (auto simp: store_ok_def list_all_iff)

subsection \<open>Context menu\<close>

text \<open>
  Claim C10.  With an empty container every context-menu event that reaches
  \<^verbatim>\<open>sceneContextMenuEvent\<close> emits \<^verbatim>\<open>pastLastPageContextMenuRequested\<close> with the
  screen position of the event; with a non-empty container it is emitted exactly
  when the scene y-coordinate of the event is strictly greater than the bottom of the
  last item's bounding rectangle in the scene, and nothing is emitted otherwise.
\<close>

theorem sceneContextMenuEvent_spec:
  "(m_itemsInOrder s = [] \<longrightarrow>
      sceneContextMenuEvent s evt = [pastLastPageContextMenuRequested (screenPos evt)])
   \<and> (m_itemsInOrder s \<noteq> [] \<longrightarrow>
        sceneContextMenuEvent s evt =
          (if QRectF_bottom (sceneBoundingRect (composite (deref s (last (m_itemsInOrder s)))))
                < snd (scenePos evt)
           then [pastLastPageContextMenuRequested (screenPos evt)] else []))"
  by (auto simp: sceneContextMenuEvent_def)

theorem sceneContextMenuEvent_spec_witness:
  "m_itemsInOrder Impl_init = []
   \<and> sceneContextMenuEvent Impl_init \<lparr>scenePos = (0, - 7), screenPos = (3, 4)\<rparr>
       = [pastLastPageContextMenuRequested (3, 4)]
   \<and> m_itemsInOrder ex_state \<noteq> []
   \<and> sceneContextMenuEvent ex_state \<lparr>scenePos = (0, 1000), screenPos = (3, 4)\<rparr>
       = [pastLastPageContextMenuRequested (3, 4)]
   \<and> sceneContextMenuEvent ex_state \<lparr>scenePos = (0, 617), screenPos = (3, 4)\<rparr> = []"
proof -
  have e: "m_itemsInOrder Impl_init = []" by (simp add: Impl_init_def)
  have n: "m_itemsInOrder ex_state \<noteq> []" by code_simp
  have b: "QRectF_bottom (sceneBoundingRect (composite (deref ex_state (last (m_itemsInOrder ex_state))))) = 617"
    by code_simp
  from sceneContextMenuEvent_spec [of Impl_init "\<lparr>scenePos = (0, - 7), screenPos = (3, 4)\<rparr>"]
       sceneContextMenuEvent_spec [of ex_state "\<lparr>scenePos = (0, 1000), screenPos = (3, 4)\<rparr>"]
       sceneContextMenuEvent_spec [of ex_state "\<lparr>scenePos = (0, 617), screenPos = (3, 4)\<rparr>"]
       e n b
  show ?thesis by simp
qed

subsection \<open>Shift-click on the leader\<close>

text \<open>
  Claim C3.  A shift-click on the item that is the selection leader leaves the state
  as it is and emits nothing: \<^verbatim>\<open>selectItemWithShift\<close> adds \<^verbatim>\<open>REDUNDANT_SELECTION\<close>
  to its flags and then returns at ``One-element sequence, already selected'', before
  \<^verbatim>\<open>emitNewSelectionLeader\<close>.  Evaluated on the state after a reset of four pages,
  whose leader is the first item.
\<close>

theorem selectItemWithShift_on_leader_silent:
  "reachable ex_state \<and> m_pSelectionLeader ex_state = Some 1
   \<and> selectItemWithShift ex_state 1 = Inr (ex_state, [])"
proof -
  have r: "reachable ex_state"
    unfolding ex_state_def by (rule reach_reset [OF reach_init])
  have l: "m_pSelectionLeader ex_state = Some 1" by code_simp
  then have "selectItemWithShift ex_state 1 = Inr (ex_state, [])"
    by (simp add: selectItemWithShift_def)
  with r l show ?thesis by simp
qed

subsection \<open>insert with an unknown reference image\<close>

lemma set_itemsById [simp]: "set (itemsById s) = set (m_itemsInOrder s)"
  by (simp add: itemsById_def)

lemma lower_bound_mem: "lower_bound s k = Some h \<Longrightarrow> h \<in> set (m_itemsInOrder s)"
  by (auto simp: lower_bound_def find_Some_iff) (metis nth_mem set_itemsById)

lemma findById_mem: "findById s k = Some h \<Longrightarrow> h \<in> set (m_itemsInOrder s)"
  by (auto simp: findById_def find_Some_iff) (metis nth_mem set_itemsById)

lemma findById_id: "findById s k = Some h \<Longrightarrow> pageId (deref s h) = k"
  by (auto simp: findById_def find_Some_iff)

text \<open>
  Claim C8.  When the reference image is not null and no item of the container
  refers to it, \<^verbatim>\<open>insert\<close> returns the state unchanged (items, display order,
  positions, scene rectangle, selection and leader) and emits no signal.
\<close>

theorem insert_reference_not_found:
  assumes "\<not> ImageId_isNull img"
    and "list_all (\<lambda>h. PageInfo_imageId (pageInfo (deref s h)) \<noteq> img) (m_itemsInOrder s)"
  shows "insert' s vis new_page before_or_after img = (s, [])"
proof -
  have "insertHint s before_or_after img = None"
  proof (cases "lower_bound s (PageId img SINGLE_PAGE)")
    case None
    with assms(1) show ?thesis by (simp add: insertHint_def)
  next
    case (Some h)
    then have "h \<in> set (m_itemsInOrder s)" by (rule lower_bound_mem)
    with assms(2) have "PageInfo_imageId (pageInfo (deref s h)) \<noteq> img"
      by (simp add: list_all_iff)
    with Some assms(1) show ?thesis by (simp add: insertHint_def)
  qed
  then show ?thesis by (simp add: insert'_def)
qed

theorem insert_reference_not_found_witness:
  "\<not> ImageId_isNull (ImageId ''z'' 0)
   \<and> list_all (\<lambda>h. PageInfo_imageId (pageInfo (deref ex_state h)) \<noteq> ImageId ''z'' 0)
        (m_itemsInOrder ex_state)
   \<and> insert' ex_state ex_vis (ex_page ''y'' SINGLE_PAGE) AFTER (ImageId ''z'' 0) = (ex_state, [])"
proof -
  have a: "\<not> ImageId_isNull (ImageId ''z'' 0)" by (simp add: ImageId_isNull_def)
  have b: "list_all (\<lambda>h. PageInfo_imageId (pageInfo (deref ex_state h)) \<noteq> ImageId ''z'' 0)
        (m_itemsInOrder ex_state)" by code_simp
  from insert_reference_not_found [OF a b] a b show ?thesis by simp
qed

subsection \<open>Click without modifiers\<close>

lemma deref_modifyItem_proj:
  assumes "\<And>it. g (f it) = g it"
  shows "g (deref (modifyItem h f s) h') = g (deref s h')"
  by (cases "m_items s h") (auto simp: deref_def modifyItem_def assms)

lemma clearSelection_loop_fields [simp]:
  "m_itemsInOrder (clearSelection_loop xs s) = m_itemsInOrder s"
  "m_selectedThenUnselected (clearSelection_loop xs s) = m_selectedThenUnselected s"
  "m_pSelectionLeader (clearSelection_loop xs s) = m_pSelectionLeader s"
  "m_ptrOrderProvider (clearSelection_loop xs s) = m_ptrOrderProvider s"
  "(m_items (clearSelection_loop xs s) h = None) = (m_items s h = None)"
  "pageInfo (deref (clearSelection_loop xs s) h) = pageInfo (deref s h)"
  "composite (deref (clearSelection_loop xs s) h) = composite (deref s h)"
  by (induction xs arbitrary: s; simp add: deref_modifyItem_proj)+

lemma clearSelection_loop_unselected:
  "\<not> isSelected s x \<Longrightarrow> \<not> isSelected (clearSelection_loop xs s) x"
  by (induction xs arbitrary: s) auto

lemma clearSelection_loop_clears:
  assumes "distinct xs"
    and "list_all (\<lambda>h. \<not> isSelected s h) (dropWhile (isSelected s) xs)"
    and "list_all (\<lambda>h. m_items s h \<noteq> None) xs"
    and "x \<in> set xs"
  shows "\<not> isSelected (clearSelection_loop xs s) x"
  using assms
proof (induction xs arbitrary: s)
  case Nil
  then show ?case by simp
next
  case (Cons h hs)
  show ?case
  proof (cases "isSelected s h")
    case False
    with Cons.prems show ?thesis by (auto simp: list_all_iff)
  next
    case True
    let ?s = "modifyItem h (setSelected False) s"
    from Cons.prems have live: "m_items s h \<noteq> None" and nin: "h \<notin> set hs" by auto
    have same: "\<And>y. y \<in> set hs \<Longrightarrow> isSelected ?s y = isSelected s y"
      using nin by auto
    then have "dropWhile (isSelected ?s) hs = dropWhile (isSelected s) hs"
      by (intro dropWhile_cong) auto
    moreover have "set (dropWhile (isSelected s) hs) \<subseteq> set hs"
      by (rule set_dropWhileD [THEN subsetI])
    ultimately have part: "list_all (\<lambda>h. \<not> isSelected ?s h) (dropWhile (isSelected ?s) hs)"
      using Cons.prems(2) True same by (auto simp: list_all_iff)
    have lives: "list_all (\<lambda>h. m_items ?s h \<noteq> None) hs"
      using Cons.prems(3) by (simp add: list_all_iff)
    show ?thesis
    proof (cases "x = h")
      case True
      have "\<not> isSelected ?s h" using live by simp
      then have "\<not> isSelected (clearSelection_loop hs ?s) h"
        by (rule clearSelection_loop_unselected)
      with True \<open>isSelected s h\<close> show ?thesis by simp
    next
      case False
      with Cons.prems have "x \<in> set hs" by simp
      from Cons.IH [OF _ part lives this] Cons.prems(1) \<open>isSelected s h\<close>
      show ?thesis by simp
    qed
  qed
qed

lemma partitioned_sel: "partitioned s \<Longrightarrow>
    list_all (\<lambda>h. \<not> isSelected s h) (dropWhile (isSelected s) (m_selectedThenUnselected s))"
  by (simp add: partitioned_def)

lemma clearSelection_spec:
  assumes "store_ok s" and "partitioned s" and "x \<in> set (m_itemsInOrder s)"
  shows "\<not> isSelected (clearSelection s) x"
proof -
  let ?s = "s\<lparr>m_pSelectionLeader := None\<rparr>"
  have "\<not> isSelected (clearSelection_loop (m_selectedThenUnselected s) ?s) x"
  proof (rule clearSelection_loop_clears)
    show "distinct (m_selectedThenUnselected s)" using assms(1) by (simp add: store_ok_def)
    have "isSelected ?s = isSelected s" by (rule ext) simp
    with partitioned_sel [OF assms(2)]
    show "list_all (\<lambda>h. \<not> isSelected ?s h) (dropWhile (isSelected ?s) (m_selectedThenUnselected s))"
      by simp
    show "list_all (\<lambda>h. m_items ?s h \<noteq> None) (m_selectedThenUnselected s)"
      using assms(1) by (simp add: store_ok_def list_all_iff)
    show "x \<in> set (m_selectedThenUnselected s)" using assms(1,3) by (simp add: store_ok_def)
  qed
  then show ?thesis by (simp add: clearSelection_def)
qed

lemma clearSelection_fields [simp]:
  "m_itemsInOrder (clearSelection s) = m_itemsInOrder s"
  "m_selectedThenUnselected (clearSelection s) = m_selectedThenUnselected s"
  "m_pSelectionLeader (clearSelection s) = None"
  "m_ptrOrderProvider (clearSelection s) = m_ptrOrderProvider s"
  "(m_items (clearSelection s) h = None) = (m_items s h = None)"
  "pageInfo (deref (clearSelection s) h) = pageInfo (deref s h)"
  "composite (deref (clearSelection s) h) = composite (deref s h)"
  by (simp_all add: clearSelection_def)


lemma ex_state_reachable: "reachable ex_state"
  unfolding ex_state_def by (rule reach_reset [OF reach_init])

lemma ex_two_reachable: "reachable ex_two"
proof -
  have "\<not> isl (selectItemWithControl ex_state 2)" by code_simp
  then obtain s sigs where r: "selectItemWithControl ex_state 2 = Inr (s, sigs)"
    by (cases "selectItemWithControl ex_state 2") auto
  then have two: "ex_two = s" by (simp add: ex_two_def)
  have live: "2 \<in> set (m_itemsInOrder ex_state)" by code_simp
  from r have "itemSelectedByUser ex_state 2 {ControlModifier} = Inr (s, sigs)"
    by (simp add: itemSelectedByUser_def)
  from reach_click [OF ex_state_reachable live this] two show ?thesis by simp
qed



subsection \<open>Positions in a list\<close>

lemma index_of_less: "x \<in> set xs \<Longrightarrow> index_of x xs < length xs"
  by (induction xs) auto

lemma index_of_nth [simp]: "x \<in> set xs \<Longrightarrow> xs ! index_of x xs = x"
  by (induction xs) auto

lemma index_of_unique:
  "distinct xs \<Longrightarrow> k < length xs \<Longrightarrow> xs ! k = x \<Longrightarrow> index_of x xs = k"
proof (induction xs arbitrary: k)
  case Nil
  then show ?case by simp
next
  case (Cons y ys)
  then show ?case by (cases k) auto
qed

subsection \<open>The search for a new leader\<close>

lemma pickLeader_nearest:
  assumes "i < length xs"
    and "\<forall>k<length xs. k \<noteq> i \<and> orderDistance i k \<le> d \<longrightarrow> \<not> sel (xs ! k)"
    and "j < length xs" and "j \<noteq> i" and "sel (xs ! j)"
  shows "\<exists>m<length xs. pickLeader sel xs (i - d) (min (i + d) (length xs)) = Some (xs ! m)
           \<and> m \<noteq> i \<and> sel (xs ! m)
           \<and> (\<forall>k<length xs. k \<noteq> i \<and> sel (xs ! k) \<longrightarrow> orderDistance i m \<le> orderDistance i k)
           \<and> (i < m \<longrightarrow> (\<forall>k<i. sel (xs ! k) \<longrightarrow> i - k \<noteq> m - i))"
  using assms
proof (induction "orderDistance i j - d" arbitrary: d rule: less_induct)
  case less
  let ?n = "length xs"
  from less.prems have far: "d < orderDistance i j" by (meson not_le)
  have none: "\<And>k. k < ?n \<Longrightarrow> k \<noteq> i \<Longrightarrow> sel (xs ! k) \<Longrightarrow> d < orderDistance i k"
    using less.prems(2) by (meson not_le)
  show ?case
  proof (cases "i - d \<noteq> 0 \<and> sel (xs ! (i - d - 1))")
    case True
    let ?m = "i - d - 1"
    from True have dm: "orderDistance i ?m = d + 1" and mi: "?m < i"
      by (auto simp: orderDistance_def)
    have "pickLeader sel xs (i - d) (min (i + d) ?n) = Some (xs ! ?m)"
      using True by (subst pickLeader.simps) simp
    moreover have "\<forall>k<?n. k \<noteq> i \<and> sel (xs ! k) \<longrightarrow> orderDistance i ?m \<le> orderDistance i k"
      using none dm by fastforce
    ultimately show ?thesis
      using True mi less.prems(1) by (intro exI [of _ ?m]) auto
  next
    case nb: False
    show ?thesis
    proof (cases "i + d + 1 < ?n \<and> sel (xs ! (i + d + 1))")
      case True
      let ?m = "i + d + 1"
      from True have dm: "orderDistance i ?m = d + 1" by (auto simp: orderDistance_def)
      have "pickLeader sel xs (i - d) (min (i + d) ?n) = Some (xs ! ?m)"
        using True nb by (subst pickLeader.simps) (auto simp: min_def)
      moreover have "\<forall>k<?n. k \<noteq> i \<and> sel (xs ! k) \<longrightarrow> orderDistance i ?m \<le> orderDistance i k"
        using none dm by fastforce
      moreover have "\<forall>k<i. sel (xs ! k) \<longrightarrow> i - k \<noteq> ?m - i"
      proof (intro allI impI notI)
        fix k assume k: "k < i" "sel (xs ! k)" "i - k = ?m - i"
        then have "k = i - d - 1" "i - d \<noteq> 0" by auto
        with nb k show False by simp
      qed
      ultimately show ?thesis using True by (intro exI [of _ ?m]) auto
    next
      case nf: False
      have step: "pickLeader sel xs (i - d) (min (i + d) ?n)
                    = pickLeader sel xs (i - (d + 1)) (min (i + (d + 1)) ?n)"
      proof -
        have a: "(if i - d \<noteq> 0 then i - d - 1 else i - d) = i - (d + 1)" by auto
        have b: "(if min (i + d) ?n \<noteq> ?n then min (i + d) ?n + 1 else min (i + d) ?n)
                   = min (i + (d + 1)) ?n"
          by (auto simp: min_def)
        have c: "\<not> (min (i + d) ?n \<noteq> ?n \<and> min (i + d) ?n + 1 \<noteq> ?n
                     \<and> sel (xs ! (min (i + d) ?n + 1)))"
          using nf by (auto simp: min_def)
        show ?thesis
          by (subst pickLeader.simps) (simp only: nb c a b if_False)
      qed
      have none': "\<forall>k<?n. k \<noteq> i \<and> orderDistance i k \<le> d + 1 \<longrightarrow> \<not> sel (xs ! k)"
      proof (intro allI impI notI)
        fix k assume k: "k < ?n" "k \<noteq> i \<and> orderDistance i k \<le> d + 1" "sel (xs ! k)"
        with none [of k] have "orderDistance i k = d + 1" by simp
        with k have "(k = i - d - 1 \<and> i - d \<noteq> 0) \<or> k = i + d + 1"
          by (auto simp: orderDistance_def split: if_splits)
        with k nb nf show False by auto
      qed
      from none' less.prems(3,4,5) have far': "d + 1 < orderDistance i j" by (meson not_le)
      then have "orderDistance i j - (d + 1) < orderDistance i j - d" by simp
      from less.hyps [OF this less.prems(1) none' less.prems(3,4,5)] step
      show ?thesis by simp
    qed
  qed
qed

subsection \<open>Ctrl-click on the leader\<close>

lemma multipleItemsSelected_two:
  assumes "distinct (m_selectedThenUnselected s)" and "partitioned s"
    and "a \<in> set (m_selectedThenUnselected s)" and "b \<in> set (m_selectedThenUnselected s)"
    and "a \<noteq> b" and "isSelected s a" and "isSelected s b"
  shows "multipleItemsSelected s"
proof -
  let ?xs = "m_selectedThenUnselected s"
  have un: "\<And>x. x \<in> set (dropWhile (isSelected s) ?xs) \<Longrightarrow> \<not> isSelected s x"
    using assms(2) by (simp add: partitioned_def list_all_iff)
  have "set ?xs = set (takeWhile (isSelected s) ?xs) \<union> set (dropWhile (isSelected s) ?xs)"
    by (metis set_append takeWhile_dropWhile_id)
  with un assms have ab: "a \<in> set (takeWhile (isSelected s) ?xs)"
      "b \<in> set (takeWhile (isSelected s) ?xs)"
    by auto
  show ?thesis
  proof (cases ?xs)
    case Nil
    with assms(3) show ?thesis by simp
  next
    case (Cons x0 ys)
    note c0 = this
    show ?thesis
    proof (cases ys)
      case Nil
      with c0 ab assms(5) show ?thesis by (auto split: if_splits)
    next
      case (Cons x1 zs)
      with c0 ab assms(5) show ?thesis
        by (auto simp: multipleItemsSelected_def split: if_splits)
    qed
  qed
qed

text \<open>
  Claim C2.  In a state whose selection index is partitioned, a ctrl-click on the
  leader while another item is selected returns, with the new leader the item at the
  position \<open>m\<close> of the display order that is selected, is nearest to the position
  \<open>i\<close> of the old leader, and is before \<open>i\<close> whenever a selected item at the same
  distance before \<open>i\<close> exists; the clicked item is deselected, the other items keep
  their selection, and exactly one signal is emitted: \<^verbatim>\<open>newSelectionLeader\<close> with the page
  of the new leader, the rectangle of its composite in the scene, and the flags
  \<^verbatim>\<open>SELECTED_BY_USER\<close> and \<^verbatim>\<open>AVOID_SCROLLING_TO\<close>.
\<close>

theorem selectItemWithControl_new_leader:
  assumes "store_ok s" and "partitioned s" and "leader_ok s"
    and "m_pSelectionLeader s = Some h"
    and "h' \<in> set (m_itemsInOrder s)" and "h' \<noteq> h" and "isSelected s h'"
  shows "\<exists>m s'. m < length (m_itemsInOrder s)
       \<and> selectItemWithControl s h =
           Inr (s', [newSelectionLeader (pageInfo (deref s (m_itemsInOrder s ! m)))
                       (sceneBoundingRect (composite (deref s (m_itemsInOrder s ! m))))
                       {SELECTED_BY_USER, AVOID_SCROLLING_TO}])
       \<and> m_pSelectionLeader s' = Some (m_itemsInOrder s ! m)
       \<and> m_itemsInOrder s ! m \<noteq> h \<and> isSelected s (m_itemsInOrder s ! m)
       \<and> (\<forall>k<length (m_itemsInOrder s).
             k \<noteq> index_of h (m_itemsInOrder s) \<and> isSelected s (m_itemsInOrder s ! k)
             \<longrightarrow> orderDistance (index_of h (m_itemsInOrder s)) m
                   \<le> orderDistance (index_of h (m_itemsInOrder s)) k)
       \<and> (index_of h (m_itemsInOrder s) < m \<longrightarrow>
            (\<forall>k<index_of h (m_itemsInOrder s). isSelected s (m_itemsInOrder s ! k)
               \<longrightarrow> index_of h (m_itemsInOrder s) - k \<noteq> m - index_of h (m_itemsInOrder s)))
       \<and> m_itemsInOrder s' = m_itemsInOrder s
       \<and> (\<forall>x \<in> set (m_itemsInOrder s). isSelected s' x = (isSelected s x \<and> x \<noteq> h))"
proof -
  let ?xs = "m_itemsInOrder s"
  let ?i = "index_of h ?xs"
  from assms(3,4) have hin: "h \<in> set ?xs" and hsel: "isSelected s h"
    by (auto simp: leader_ok_def)
  from assms(1) have dist: "distinct ?xs" and dsel: "distinct (m_selectedThenUnselected s)"
    and sets: "set (m_selectedThenUnselected s) = set ?xs"
    by (auto simp: store_ok_def)
  from assms(1) hin have live: "m_items s h \<noteq> None" by (rule store_ok_live)
  have multi: "multipleItemsSelected s"
    using multipleItemsSelected_two [OF dsel assms(2), of h h'] hin assms(5,6,7) hsel sets
    by auto
  let ?s1 = "moveToUnselected h (modifyItem h (setSelected False) s)"
  have sel1: "\<And>x. isSelected ?s1 x = (isSelected s x \<and> x \<noteq> h)"
    using live by auto
  have i: "?i < length ?xs" "?xs ! ?i = h"
    using hin by (simp_all add: index_of_less)
  have neq: "\<And>k. k < length ?xs \<Longrightarrow> (?xs ! k \<noteq> h) = (k \<noteq> ?i)"
    using dist index_of_unique i(2) by metis
  let ?j = "index_of h' ?xs"
  have j: "?j < length ?xs" "?xs ! ?j = h'"
    using assms(5) by (simp_all add: index_of_less)
  have jne: "?j \<noteq> ?i" using j i assms(6) by metis
  have "\<exists>m<length ?xs. pickLeader (isSelected ?s1) ?xs (?i - 0) (min (?i + 0) (length ?xs))
             = Some (?xs ! m)
           \<and> m \<noteq> ?i \<and> isSelected ?s1 (?xs ! m)
           \<and> (\<forall>k<length ?xs. k \<noteq> ?i \<and> isSelected ?s1 (?xs ! k)
                 \<longrightarrow> orderDistance ?i m \<le> orderDistance ?i k)
           \<and> (?i < m \<longrightarrow> (\<forall>k<?i. isSelected ?s1 (?xs ! k) \<longrightarrow> ?i - k \<noteq> m - ?i))"
  proof (rule pickLeader_nearest [OF i(1) _ j(1) jne])
    show "\<forall>k<length ?xs. k \<noteq> ?i \<and> orderDistance ?i k \<le> 0 \<longrightarrow> \<not> isSelected ?s1 (?xs ! k)"
      by (auto simp: orderDistance_def split: if_splits)
    show "isSelected ?s1 (?xs ! ?j)"
      using j assms(6,7) sel1 by simp
  qed
  then obtain m where m: "m < length ?xs"
      "pickLeader (isSelected ?s1) ?xs ?i ?i = Some (?xs ! m)"
      "m \<noteq> ?i" "isSelected ?s1 (?xs ! m)"
      "\<forall>k<length ?xs. k \<noteq> ?i \<and> isSelected ?s1 (?xs ! k)
           \<longrightarrow> orderDistance ?i m \<le> orderDistance ?i k"
      "?i < m \<longrightarrow> (\<forall>k<?i. isSelected ?s1 (?xs ! k) \<longrightarrow> ?i - k \<noteq> m - ?i)"
    using i(1) by (auto simp: min_def)
  let ?l = "?xs ! m"
  let ?s' = "modifyItem ?l (setSelectionLeader True) (?s1\<lparr>m_pSelectionLeader := Some ?l\<rparr>)"
  from m(1) have lin: "?l \<in> set ?xs" by simp
  with assms(1) have llive: "m_items s ?l \<noteq> None" by (rule store_ok_live)
  from m(4) sel1 have lsel: "isSelected s ?l" "?l \<noteq> h" by auto
  have pi: "pageInfo (deref ?s' ?l) = pageInfo (deref s ?l)"
    and co: "composite (deref ?s' ?l) = composite (deref s ?l)"
    by (simp_all add: deref_modifyItem_proj)
  have res: "selectItemWithControl s h =
           Inr (?s', [newSelectionLeader (pageInfo (deref s ?l))
                        (sceneBoundingRect (composite (deref s ?l)))
                        {SELECTED_BY_USER, AVOID_SCROLLING_TO}])"
    unfolding selectItemWithControl_def Let_def
    using hsel multi assms(4) m(2) pi co by (simp add: emitNewSelectionLeader_def)
  have near: "\<forall>k<length ?xs. k \<noteq> ?i \<and> isSelected s (?xs ! k)
                 \<longrightarrow> orderDistance ?i m \<le> orderDistance ?i k"
    using m(5) sel1 neq by auto
  have tie: "?i < m \<longrightarrow> (\<forall>k<?i. isSelected s (?xs ! k) \<longrightarrow> ?i - k \<noteq> m - ?i)"
  proof (intro impI allI)
    fix k assume "?i < m" "k < ?i" "isSelected s (?xs ! k)"
    moreover from \<open>k < ?i\<close> i(1) have "k < length ?xs" "k \<noteq> ?i" by auto
    ultimately show "?i - k \<noteq> m - ?i" using m(6) sel1 neq by auto
  qed
  have sel': "\<forall>x \<in> set ?xs. isSelected ?s' x = (isSelected s x \<and> x \<noteq> h)"
    using lsel llive live by auto
  show ?thesis
    using m(1) res lsel near tie sel'
    by (intro exI [of _ m] exI [of _ ?s']) simp
qed

text \<open>
  With the first three items selected and the second leading, the items before and
  after the leader are equally near: the one before it becomes the leader.
\<close>

theorem selectItemWithControl_new_leader_witness:
  "store_ok ex_three \<and> partitioned ex_three \<and> leader_ok ex_three
   \<and> m_pSelectionLeader ex_three = Some 2
   \<and> m_itemsInOrder ex_three = [1, 2, 3, 4]
   \<and> map (isSelected ex_three) [1, 2, 3, 4] = [True, True, True, False]
   \<and> (\<exists>s'. selectItemWithControl ex_three 2 =
             Inr (s', [newSelectionLeader (ex_page ''a'' SINGLE_PAGE)
                         \<lparr>xp = - 150, yp = - 5, wd = 300, ht = 148\<rparr>
                         {SELECTED_BY_USER, AVOID_SCROLLING_TO}])
         \<and> m_pSelectionLeader s' = Some 1
         \<and> map (isSelected s') [1, 2, 3, 4] = [True, False, True, False])"
proof -
  have a: "store_ok ex_three" by code_simp
  have b: "partitioned ex_three" by code_simp
  have c: "leader_ok ex_three" by code_simp
  have d: "m_pSelectionLeader ex_three = Some 2" by code_simp
  have xs: "m_itemsInOrder ex_three = [1, 2, 3, 4]" by code_simp
  have sel: "map (isSelected ex_three) [1, 2, 3, 4] = [True, True, True, False]" by code_simp
  have i: "index_of 2 [1, 2, 3, 4::nat] = 1" by code_simp
  have pi: "pageInfo (deref ex_three 1) = ex_page ''a'' SINGLE_PAGE" by code_simp
  have rect: "sceneBoundingRect (composite (deref ex_three 1))
                = \<lparr>xp = - 150, yp = - 5, wd = 300, ht = 148\<rparr>" by code_simp
  have e: "1 \<in> set (m_itemsInOrder ex_three)" by (simp add: xs)
  have f: "(1::nat) \<noteq> 2" by simp
  have g: "isSelected ex_three 1" using sel by simp
  from selectItemWithControl_new_leader [OF a b c d e f g] obtain m s' where
    m: "m < length (m_itemsInOrder ex_three)"
    and r: "selectItemWithControl ex_three 2 =
             Inr (s', [newSelectionLeader (pageInfo (deref ex_three (m_itemsInOrder ex_three ! m)))
                         (sceneBoundingRect (composite (deref ex_three (m_itemsInOrder ex_three ! m))))
                         {SELECTED_BY_USER, AVOID_SCROLLING_TO}])"
    and l: "m_pSelectionLeader s' = Some (m_itemsInOrder ex_three ! m)"
    and n: "m_itemsInOrder ex_three ! m \<noteq> 2" "isSelected ex_three (m_itemsInOrder ex_three ! m)"
    and tie: "index_of 2 (m_itemsInOrder ex_three) < m \<longrightarrow>
            (\<forall>k<index_of 2 (m_itemsInOrder ex_three). isSelected ex_three (m_itemsInOrder ex_three ! k)
               \<longrightarrow> index_of 2 (m_itemsInOrder ex_three) - k \<noteq> m - index_of 2 (m_itemsInOrder ex_three))"
    and o: "m_itemsInOrder s' = m_itemsInOrder ex_three"
    and f': "\<forall>x \<in> set (m_itemsInOrder ex_three). isSelected s' x = (isSelected ex_three x \<and> x \<noteq> 2)"
    by blast
  from m have "m = 0 \<or> m = 1 \<or> m = 2 \<or> m = 3" by (auto simp: xs)
  moreover have "m \<noteq> 1" using n(1) by (auto simp: xs)
  moreover have "m \<noteq> 3" using n(2) sel by (auto simp: xs)
  moreover have "m \<noteq> 2"
  proof
    assume "m = 2"
    with tie have "\<forall>k<1. isSelected ex_three ([1, 2, 3, 4] ! k) \<longrightarrow> (1::nat) - k \<noteq> 2 - 1"
      by (simp add: xs i)
    then have "isSelected ex_three 1 \<longrightarrow> False" by auto
    with g show False by simp
  qed
  ultimately have m0: "m = 0" by blast
  have flags: "map (isSelected s') [1, 2, 3, 4] = [True, False, True, False]"
    using f' sel by (simp add: xs)
  from r l m0 pi rect have "selectItemWithControl ex_three 2 =
             Inr (s', [newSelectionLeader (ex_page ''a'' SINGLE_PAGE)
                         \<lparr>xp = - 150, yp = - 5, wd = 300, ht = 148\<rparr>
                         {SELECTED_BY_USER, AVOID_SCROLLING_TO}])"
    and "m_pSelectionLeader s' = Some 1"
    by (simp_all add: xs)
  with flags a b c d xs sel show ?thesis by (intro conjI exI [of _ s']) simp_all
qed

subsection \<open>Changes that leave the selection alone\<close>

lemma sameSelection_refl [simp]: "sameSelection s s"
  by (simp add: sameSelection_def)

lemma sameSelection_trans: "sameSelection s s' \<Longrightarrow> sameSelection s' s'' \<Longrightarrow> sameSelection s s''"
  by (simp add: sameSelection_def)

lemma sameSelection_store_ok: "sameSelection s s' \<Longrightarrow> store_ok s \<Longrightarrow> store_ok s'"
proof -
  assume a: "sameSelection s s'" and b: "store_ok s"
  from a have m: "mset (m_itemsInOrder s') = mset (m_itemsInOrder s)"
    by (simp add: sameSelection_def)
  then have "set (m_itemsInOrder s') = set (m_itemsInOrder s)"
    and "distinct (m_itemsInOrder s') = distinct (m_itemsInOrder s)"
    by (rule mset_eq_setD, rule mset_eq_imp_distinct_iff)
  with a b show ?thesis by (simp add: sameSelection_def store_ok_def list_all_iff)
qed

lemma sameSelection_leader_ok: "sameSelection s s' \<Longrightarrow> leader_ok s \<Longrightarrow> leader_ok s'"
proof -
  assume a: "sameSelection s s'" and b: "leader_ok s"
  from a have "mset (m_itemsInOrder s') = mset (m_itemsInOrder s)"
    by (simp add: sameSelection_def)
  then have "set (m_itemsInOrder s') = set (m_itemsInOrder s)" by (rule mset_eq_setD)
  with a b show ?thesis by (simp add: sameSelection_def leader_ok_def split: option.splits)
qed

lemma sameSelection_partitioned: "sameSelection s s' \<Longrightarrow> partitioned s \<Longrightarrow> partitioned s'"
proof -
  assume a: "sameSelection s s'" and b: "partitioned s"
  from a have "isSelected s' = isSelected s" by (auto simp: sameSelection_def)
  with a b show ?thesis by (simp add: sameSelection_def partitioned_def)
qed

lemma isSelected_modifyItem_same:
  "(\<And>it. m_isSelected (f it) = m_isSelected it) \<Longrightarrow> isSelected (modifyItem h f t) x = isSelected t x"
  by (simp add: isSelected_def modifyItem_def split: option.splits)

lemma sameSelection_modifyItem:
  "(\<And>it. m_isSelected (f it) = m_isSelected it) \<Longrightarrow> sameSelection s t
     \<Longrightarrow> sameSelection s (modifyItem h f t)"
  by (simp add: sameSelection_def isSelected_modifyItem_same)

lemma sameSelection_setComposite:
  "sameSelection s t \<Longrightarrow> sameSelection s (modifyItem h (setComposite c) t)"
  "sameSelection s t \<Longrightarrow> sameSelection s (modifyItem h (\<lambda>it. setComposite (g it) it) t)"
  by (rule sameSelection_modifyItem; simp add: setComposite_def)+

lemma sameSelection_setId:
  "sameSelection s t \<Longrightarrow> sameSelection s (modifyItem h (\<lambda>it. it\<lparr>pageInfo := g it\<rparr>) t)"
  by (rule sameSelection_modifyItem) simp_all

lemma sameSelection_update:
  "sameSelection s t \<Longrightarrow> sameSelection s (t\<lparr>m_sceneRect := r\<rparr>)"
  "sameSelection s t \<Longrightarrow> sameSelection s (t\<lparr>graphicsSceneRect := r\<rparr>)"
  "sameSelection s t \<Longrightarrow> sameSelection s (t\<lparr>m_ptrOrderProvider := p\<rparr>)"
  "sameSelection s t \<Longrightarrow> sameSelection s (commitSceneRect t)"
  by (simp_all add: sameSelection_def commitSceneRect_def isSelected_def)

lemma sameSelection_order:
  "sameSelection s t \<Longrightarrow> mset xs = mset (m_itemsInOrder t)
     \<Longrightarrow> sameSelection s (t\<lparr>m_itemsInOrder := xs\<rparr>)"
  by (simp add: sameSelection_def)

lemma sameSelection_reposition:
  "sameSelection s t \<Longrightarrow> sameSelection s (fst (reposition hs offset t))"
proof (induction hs arbitrary: offset t)
  case Nil
  then show ?case by simp
next
  case (Cons h hs)
  then show ?case by (simp add: Let_def sameSelection_setComposite)
qed

lemma sameSelection_shiftItems:
  "sameSelection s t \<Longrightarrow> sameSelection s (shiftItems d hs t)"
proof (induction hs arbitrary: t)
  case Nil
  then show ?case by simp
next
  case (Cons h hs)
  then show ?case by (simp add: Let_def sameSelection_setComposite sameSelection_update)
qed

lemma sameSelection_rebuild_loop:
  "sameSelection s t \<Longrightarrow> sameSelection s (rebuild_loop vis hs offset t)"
proof (induction hs arbitrary: offset t)
  case Nil
  then show ?case by simp
next
  case (Cons h hs)
  then show ?case by (simp add: Let_def sameSelection_setComposite sameSelection_update)
qed

lemmas sameSelection_intros =
  sameSelection_setComposite sameSelection_setId sameSelection_update sameSelection_order
  sameSelection_reposition sameSelection_shiftItems sameSelection_rebuild_loop

subsection \<open>Sorting and relocation are rearrangements\<close>

lemma mset_stable_insert [simp]: "mset (stable_insert lt x xs) = add_mset x (mset xs)"
  by (induction xs) auto

lemma mset_stable_sort [simp]: "mset (stable_sort lt xs) = mset xs"
  by (induction xs) (auto simp: stable_sort_def)

lemma mset_take_drop: "mset (take k ys) + mset (drop k ys) = mset ys"
  by (metis append_take_drop_id mset_append)

lemma mset_relocate:
  "h \<in> set xs \<Longrightarrow> mset (take k (remove1 h xs) @ h # drop k (remove1 h xs)) = mset xs"
proof -
  assume h: "h \<in> set xs"
  have "mset (take k (remove1 h xs) @ h # drop k (remove1 h xs))
          = add_mset h (mset (take k (remove1 h xs)) + mset (drop k (remove1 h xs)))"
    by simp
  also have "\<dots> = add_mset h (mset (remove1 h xs))" by (simp only: mset_take_drop)
  also have "\<dots> = mset xs" using h by simp
  finally show ?thesis .
qed

lemma sameSelection_relocateInvalidated:
  assumes h: "h \<in> set (m_itemsInOrder t)" and ss: "sameSelection s t"
  shows "sameSelection s (fst (relocateInvalidated t h page_id))"
proof -
  let ?xs = "m_itemsInOrder t"
  let ?t1 = "t\<lparr>m_itemsInOrder := h # remove1 h ?xs\<rparr>"
  have 1: "sameSelection s ?t1"
    by (rule sameSelection_order [OF ss]) (simp add: h)
  have 2: "mset (take k (tl (m_itemsInOrder ?t1)) @ [h] @ drop k (tl (m_itemsInOrder ?t1)))
             = mset (m_itemsInOrder ?t1)" for k
  proof -
    have "mset (take k (tl (m_itemsInOrder ?t1)) @ [h] @ drop k (tl (m_itemsInOrder ?t1)))
            = mset (take k (remove1 h ?xs) @ h # drop k (remove1 h ?xs))"
      by simp
    also have "\<dots> = mset ?xs" by (rule mset_relocate [OF h])
    also have "\<dots> = mset (m_itemsInOrder ?t1)" using h by simp
    finally show ?thesis .
  qed
  show ?thesis
    unfolding relocateInvalidated_def Let_def fst_conv
    by (rule sameSelection_order [OF 1]) (rule 2)
qed

lemma sameSelection_repositionInvalidated:
  "sameSelection s t \<Longrightarrow> sameSelection s (repositionInvalidated t after_old after_new dst size_changed)"
  unfolding repositionInvalidated_def Let_def
  by (simp add: sameSelection_reposition)

lemma sameSelection_updateSceneRectInvalidated:
  "sameSelection s t \<Longrightarrow> sameSelection s (updateSceneRectInvalidated t h)"
  unfolding updateSceneRectInvalidated_def Let_def
  by (intro sameSelection_update)

lemma sameSelection_invalidateThumbnail:
  "sameSelection s (fst (invalidateThumbnail s vis page_id))"
proof (cases "findById s page_id")
  case None
  then show ?thesis by (simp add: invalidateThumbnail_def)
next
  case (Some h)
  then have h: "h \<in> set (m_itemsInOrder s)" by (rule findById_mem)
  show ?thesis
    unfolding invalidateThumbnail_def Let_def option.case Some fst_conv
    by (intro sameSelection_updateSceneRectInvalidated sameSelection_repositionInvalidated
          sameSelection_relocateInvalidated sameSelection_setComposite sameSelection_refl)
       (simp add: h)
qed

lemma sameSelection_invalidateAllThumbnails:
  "sameSelection s (fst (invalidateAllThumbnails s vis))"
  unfolding invalidateAllThumbnails_def Let_def fst_conv
  by (cases "m_ptrOrderProvider s"; simp; intro sameSelection_intros sameSelection_refl; simp)

subsection \<open>Primitive steps and the invariants\<close>

lemma store_ok_modifyItem [simp]: "store_ok (modifyItem h f s) = store_ok s"
  by (simp add: store_ok_def)

lemma store_ok_update [simp]:
  "store_ok (s\<lparr>m_pSelectionLeader := l\<rparr>) = store_ok s"
  "store_ok (s\<lparr>m_sceneRect := r\<rparr>) = store_ok s"
  "store_ok (s\<lparr>graphicsSceneRect := r\<rparr>) = store_ok s"
  "store_ok (s\<lparr>m_ptrOrderProvider := p\<rparr>) = store_ok s"
  "store_ok (commitSceneRect s) = store_ok s"
  by (simp_all add: store_ok_def commitSceneRect_def)

lemma commitSceneRect_fields [simp]:
  "m_items (commitSceneRect s) = m_items s"
  "m_itemsInOrder (commitSceneRect s) = m_itemsInOrder s"
  "m_selectedThenUnselected (commitSceneRect s) = m_selectedThenUnselected s"
  "m_pSelectionLeader (commitSceneRect s) = m_pSelectionLeader s"
  "m_ptrOrderProvider (commitSceneRect s) = m_ptrOrderProvider s"
  "isSelected (commitSceneRect s) h = isSelected s h"
  "deref (commitSceneRect s) h = deref s h"
  by (simp_all add: commitSceneRect_def isSelected_def deref_def)

lemma store_ok_moveToSelected:
  "store_ok s \<Longrightarrow> h \<in> set (m_itemsInOrder s) \<Longrightarrow> store_ok (moveToSelected h s)"
  by (auto simp: store_ok_def)

lemma store_ok_moveToUnselected:
  "store_ok s \<Longrightarrow> h \<in> set (m_itemsInOrder s) \<Longrightarrow> store_ok (moveToUnselected h s)"
  by (auto simp: store_ok_def)

lemma fold_max_start: "(a::nat) \<le> fold max xs a"
proof (induction xs arbitrary: a)
  case Nil
  show ?case by simp
next
  case (Cons x xs)
  have "a \<le> max x a" by simp
  also have "\<dots> \<le> fold max xs (max x a)" by (rule Cons.IH)
  finally show ?case by simp
qed

lemma fold_max_ge: "x \<in> set xs \<Longrightarrow> (x::nat) \<le> fold max xs a"
proof (induction xs arbitrary: a)
  case Nil
  then show ?case by simp
next
  case (Cons y ys)
  show ?case
  proof (cases "x = y")
    case True
    have "y \<le> max y a" by simp
    also have "\<dots> \<le> fold max ys (max y a)" by (rule fold_max_start)
    finally show ?thesis using True by simp
  next
    case False
    with Cons.prems have "x \<in> set ys" by simp
    then show ?thesis by (simp add: Cons.IH)
  qed
qed

lemma freshHandle_notin: "freshHandle s \<notin> set (m_itemsInOrder s)"
proof
  assume "freshHandle s \<in> set (m_itemsInOrder s)"
  then have "freshHandle s \<le> fold max (m_itemsInOrder s) 0" by (rule fold_max_ge)
  then show False by (simp add: freshHandle_def)
qed

lemma insertAt_cases:
  obtains (rejected) "insertAt i it s = s"
  | (inserted) h where "h \<notin> set (m_itemsInOrder s)"
      "insertAt i it s =
         s\<lparr>m_items := (m_items s)(h \<mapsto> it),
           m_itemsInOrder := take i (m_itemsInOrder s) @ h # drop i (m_itemsInOrder s),
           m_selectedThenUnselected := m_selectedThenUnselected s @ [h]\<rparr>"
proof (cases "findById s (pageId it) = None")
  case True
  then have "insertAt i it s =
         s\<lparr>m_items := (m_items s)(freshHandle s \<mapsto> it),
           m_itemsInOrder := take i (m_itemsInOrder s) @ freshHandle s # drop i (m_itemsInOrder s),
           m_selectedThenUnselected := m_selectedThenUnselected s @ [freshHandle s]\<rparr>"
    by (simp add: insertAt_def Let_def)
  with freshHandle_notin [of s] show thesis by (rule inserted)
next
  case False
  then have "insertAt i it s = s" by (simp add: insertAt_def)
  then show thesis by (rule rejected)
qed

lemma mset_insert_at: "mset (take i xs @ h # drop i xs) = mset (h # xs)"
  by (simp add: mset_take_drop)

lemma set_insert_at: "set (take i xs @ h # drop i xs) = insert h (set xs)"
  using mset_eq_setD [OF mset_insert_at [of i xs h]] by simp

lemma distinct_insert_at:
  "distinct (take i xs @ h # drop i xs) = (h \<notin> set xs \<and> distinct xs)"
  using mset_eq_imp_distinct_iff [OF mset_insert_at [of i xs h]] by simp

lemma store_ok_insertAt: "store_ok s \<Longrightarrow> store_ok (insertAt i it s)"
proof (cases i it s rule: insertAt_cases)
  case rejected
  assume "store_ok s"
  with rejected show ?thesis by simp
next
  case (inserted h)
  assume ok: "store_ok s"
  define ys where "ys = take i (m_itemsInOrder s) @ h # drop i (m_itemsInOrder s)"
  have d: "distinct ys" using ok inserted(1) unfolding ys_def distinct_insert_at store_ok_def by simp
  have e: "set ys = insert h (set (m_itemsInOrder s))" unfolding ys_def by (rule set_insert_at)
  have "store_ok (s\<lparr>m_items := (m_items s)(h \<mapsto> it), m_itemsInOrder := ys,
           m_selectedThenUnselected := m_selectedThenUnselected s @ [h]\<rparr>)"
    using ok inserted(1) d e by (auto simp: store_ok_def list_all_iff)
  with inserted(2) show ?thesis by (simp add: ys_def)
qed

lemma insertAt_old:
  "h \<in> set (m_itemsInOrder s) \<Longrightarrow> isSelected (insertAt i it s) h = isSelected s h"
  by (cases i it s rule: insertAt_cases) (auto simp: isSelected_def)

lemma insertAt_leader [simp]: "m_pSelectionLeader (insertAt i it s) = m_pSelectionLeader s"
  by (cases i it s rule: insertAt_cases) auto

lemma insertAt_mono: "set (m_itemsInOrder s) \<subseteq> set (m_itemsInOrder (insertAt i it s))"
  by (cases i it s rule: insertAt_cases) (auto simp: set_insert_at simp del: set_append)

lemma leader_ok_insertAt: "leader_ok s \<Longrightarrow> leader_ok (insertAt i it s)"
  using insertAt_mono [of s i it]
  by (auto simp: leader_ok_def insertAt_old split: option.splits)

lemma store_ok_erase: "store_ok s \<Longrightarrow> store_ok (erase h s)"
  by (auto simp: store_ok_def erase_def list_all_iff)

lemma erase_fields [simp]:
  "m_itemsInOrder (erase h s) = remove1 h (m_itemsInOrder s)"
  "m_selectedThenUnselected (erase h s) = remove1 h (m_selectedThenUnselected s)"
  "m_pSelectionLeader (erase h s) = m_pSelectionLeader s"
  "m_ptrOrderProvider (erase h s) = m_ptrOrderProvider s"
  by (simp_all add: erase_def)

lemma isSelected_erase: "x \<noteq> h \<Longrightarrow> isSelected (erase h s) x = isSelected s x"
  by (simp add: erase_def isSelected_def)

lemma leader_ok_erase:
  "leader_ok s \<Longrightarrow> m_pSelectionLeader s \<noteq> Some h \<Longrightarrow> leader_ok (erase h s)"
  by (auto simp: leader_ok_def isSelected_erase split: option.splits)

lemma store_ok_commitSceneRect: "store_ok t \<Longrightarrow> store_ok (commitSceneRect t)"
  by simp

lemma store_ok_shiftItems: "store_ok t \<Longrightarrow> store_ok (shiftItems d hs t)"
  by (rule sameSelection_store_ok [OF sameSelection_shiftItems [OF sameSelection_refl]])

lemma leader_ok_commitSceneRect: "leader_ok t \<Longrightarrow> leader_ok (commitSceneRect t)"
  by (rule sameSelection_leader_ok [OF sameSelection_update(4) [OF sameSelection_refl]])

lemma leader_ok_sceneRect: "leader_ok t \<Longrightarrow> leader_ok (t\<lparr>m_sceneRect := r\<rparr>)"
  by (rule sameSelection_leader_ok [OF sameSelection_update(1) [OF sameSelection_refl]])

lemma leader_ok_shiftItems: "leader_ok t \<Longrightarrow> leader_ok (shiftItems d hs t)"
  by (rule sameSelection_leader_ok [OF sameSelection_shiftItems [OF sameSelection_refl]])

subsection \<open>insert keeps the invariants\<close>

lemma insert_store_ok:
  assumes "store_ok s"
  shows "store_ok (fst (insert' s vis page_info before_or_after img))"
proof (cases "insertHint s before_or_after img")
  case None
  with assms show ?thesis by (simp add: insert'_def)
next
  case (Some hint)
  show ?thesis
    unfolding insert'_def Let_def option.case Some fst_conv
    by (rule store_ok_commitSceneRect, rule store_ok_shiftItems, rule store_ok_insertAt)
       (simp add: assms)
qed

lemma insert_leader_ok:
  assumes "leader_ok s"
  shows "leader_ok (fst (insert' s vis page_info before_or_after img))"
proof (cases "insertHint s before_or_after img")
  case None
  with assms show ?thesis by (simp add: insert'_def)
next
  case (Some hint)
  show ?thesis
    unfolding insert'_def Let_def option.case Some fst_conv
    by (rule leader_ok_commitSceneRect, rule leader_ok_shiftItems, rule leader_ok_insertAt,
        rule leader_ok_sceneRect, rule assms)
qed

subsection \<open>removePages keeps the invariants\<close>

lemma removePages_step_store_ok:
  "store_ok (fst acc) \<Longrightarrow> store_ok (fst (removePages_step to_remove h acc))"
  by (cases acc) (simp add: removePages_step_def Let_def store_ok_erase)

lemma removePages_step_leader_ok:
  "leader_ok (fst acc) \<Longrightarrow> leader_ok (fst (removePages_step to_remove h acc))"
proof (cases acc)
  case (fields s dy imgs)
  assume ok: "leader_ok (fst acc)"
  show ?thesis
  proof (cases "id' (pageInfo (deref s h)) \<notin> to_remove")
    case True
    have "leader_ok (t\<lparr>m_sceneRect := r\<rparr>)" if "leader_ok t" for t r
      using that by (rule leader_ok_sceneRect)
    moreover have "leader_ok (modifyItem h (\<lambda>it. setComposite (g it) it) s)" for g
      using ok fields
      by (intro sameSelection_leader_ok [OF sameSelection_setComposite(2) [OF sameSelection_refl]])
         simp
    ultimately show ?thesis
      using True ok fields by (simp add: removePages_step_def Let_def)
  next
    case False
    have "leader_ok (erase h (s\<lparr>m_pSelectionLeader := None\<rparr>))"
      by (simp add: leader_ok_def)
    moreover have "m_pSelectionLeader s \<noteq> Some h \<Longrightarrow> leader_ok (erase h s)"
      using ok fields by (intro leader_ok_erase) simp_all
    ultimately show ?thesis
      using False fields by (simp add: removePages_step_def Let_def)
  qed
qed

lemma removePages_loop_inv:
  "store_ok (fst acc) \<and> leader_ok (fst acc)
     \<Longrightarrow> store_ok (fst (removePages_loop to_remove hs acc))
         \<and> leader_ok (fst (removePages_loop to_remove hs acc))"
proof (induction hs arbitrary: acc)
  case Nil
  then show ?case by simp
next
  case (Cons h hs)
  then show ?case
    by (simp add: removePages_step_store_ok removePages_step_leader_ok)
qed

lemma sameSelection_modify:
  "modify h new_id t = Inr t' \<Longrightarrow> sameSelection s t \<Longrightarrow> sameSelection s t'"
  by (auto simp: modify_def sameSelection_setId split: if_splits)

lemma sameSelection_singularize_loop:
  "singularize_loop image_id hs t = Inr t' \<Longrightarrow> sameSelection s t \<Longrightarrow> sameSelection s t'"
proof (induction hs arbitrary: t)
  case Nil
  then show ?case by simp
next
  case (Cons h hs)
  then show ?case by (auto split: sum.splits dest: sameSelection_modify)
qed

lemma sameSelection_singularize:
  "singularize imgs t = Inr t' \<Longrightarrow> sameSelection s t \<Longrightarrow> sameSelection s t'"
proof (induction imgs arbitrary: t)
  case Nil
  then show ?case by simp
next
  case (Cons image_id rest)
  then show ?case by (auto split: sum.splits dest: sameSelection_singularize_loop)
qed

lemma removePages_inv:
  assumes "removePages s to_remove = Inr (s', sigs)" and "store_ok s" and "leader_ok s"
  shows "store_ok s' \<and> leader_ok s'"
proof -
  let ?s0 = "s\<lparr>m_sceneRect := \<lparr>xp = 0, yp = 0, wd = 0, ht = 0\<rparr>\<rparr>"
  let ?looped = "removePages_loop to_remove (m_itemsInOrder ?s0) (?s0, 0, [])"
  have "store_ok (fst (?s0, 0::real, []::ImageId list)) \<and> leader_ok (fst (?s0, 0::real, []::ImageId list))"
    using assms(2,3) by (simp add: leader_ok_sceneRect)
  then have l: "store_ok (fst ?looped) \<and> leader_ok (fst ?looped)"
    by (rule removePages_loop_inv)
  from assms(1) obtain t where t: "singularize (snd (snd ?looped)) (fst ?looped) = Inr t"
    and s': "s' = commitSceneRect t"
    by (auto simp: removePages_def Let_def split: sum.splits)
  from t have ss: "sameSelection (fst ?looped) t"
    by (rule sameSelection_singularize) simp
  from ss l have "store_ok t" "leader_ok t"
    by (auto intro: sameSelection_store_ok sameSelection_leader_ok)
  with s' show ?thesis by (simp add: leader_ok_commitSceneRect)
qed

subsection \<open>invalidateThumbnail, invalidateAllThumbnails\<close>

lemma invalidate_inv:
  "store_ok s \<Longrightarrow> store_ok (fst (invalidateThumbnail s vis page_id))"
  "leader_ok s \<Longrightarrow> leader_ok (fst (invalidateThumbnail s vis page_id))"
  "store_ok s \<Longrightarrow> store_ok (fst (invalidateAllThumbnails s vis))"
  "leader_ok s \<Longrightarrow> leader_ok (fst (invalidateAllThumbnails s vis))"
  by (erule sameSelection_store_ok [OF sameSelection_invalidateThumbnail]
            sameSelection_leader_ok [OF sameSelection_invalidateThumbnail]
            sameSelection_store_ok [OF sameSelection_invalidateAllThumbnails]
            sameSelection_leader_ok [OF sameSelection_invalidateAllThumbnails])+

subsection \<open>setSelection keeps the invariants\<close>

lemma setSelection_loop_order [simp]:
  "m_itemsInOrder (setSelection_loop target xs s) = m_itemsInOrder s"
  by (induction xs arbitrary: s) (auto simp: Let_def)

lemma setSelection_loop_live [simp]:
  "(m_items (setSelection_loop target xs s) h = None) = (m_items s h = None)"
  by (induction xs arbitrary: s) (auto simp: Let_def)

lemma setSelection_loop_store_ok:
  "store_ok s \<Longrightarrow> set xs \<subseteq> set (m_itemsInOrder s) \<Longrightarrow> store_ok (setSelection_loop target xs s)"
proof (induction xs arbitrary: s)
  case Nil
  then show ?case by simp
next
  case (Cons h hs)
  let ?s1 = "moveToUnselected h (modifyItem h (setSelected False) s)"
  from Cons.prems have "store_ok ?s1" by (intro store_ok_moveToUnselected) simp_all
  then have "store_ok (setSelection_loop target hs ?s1)"
    and "store_ok (setSelection_loop target hs (?s1\<lparr>m_pSelectionLeader := None\<rparr>))"
    using Cons.prems by (auto intro!: Cons.IH)
  moreover have "store_ok (setSelection_loop target hs s)"
    using Cons.prems by (auto intro!: Cons.IH)
  ultimately show ?case using Cons.prems by (auto simp: Let_def)
qed

lemma setSelection_loop_target:
  "isSelected (setSelection_loop target xs s) target = isSelected s target"
  by (induction xs arbitrary: s) (auto simp: Let_def)

lemma setSelection_loop_leader:
  "m_pSelectionLeader s = Some target
     \<Longrightarrow> m_pSelectionLeader (setSelection_loop target xs s) = Some target"
  by (induction xs arbitrary: s) (auto simp: Let_def)

lemma setSelection_inv:
  assumes "store_ok s" and "leader_ok s"
  shows "store_ok (fst (setSelection s page_id)) \<and> leader_ok (fst (setSelection s page_id))"
proof (cases "findById s page_id")
  case None
  with assms show ?thesis by (simp add: setSelection_def)
next
  case (Some h)
  then have h: "h \<in> set (m_itemsInOrder s)" by (rule findById_mem)
  with assms(1) have live: "m_items s h \<noteq> None" by (rule store_ok_live)
  let ?t = "setSelection_loop h (m_selectedThenUnselected s) s"
  have ok: "store_ok ?t"
    using assms(1) by (intro setSelection_loop_store_ok) (simp_all add: store_ok_def)
  show ?thesis
  proof (cases "m_pSelectionLeader s = Some h")
    case True
    then have "m_pSelectionLeader ?t = Some h" by (rule setSelection_loop_leader)
    moreover from True assms(2) have "isSelected ?t h"
      by (simp add: setSelection_loop_target leader_ok_def)
    ultimately have "leader_ok ?t" using h by (simp add: leader_ok_def)
    with ok True Some show ?thesis by (simp add: setSelection_def Let_def)
  next
    case False
    let ?u = "moveToSelected h (modifyItem h (setSelectionLeader True) (?t\<lparr>m_pSelectionLeader := Some h\<rparr>))"
    have "store_ok ?u" using ok h by (intro store_ok_moveToSelected) simp_all
    moreover have "leader_ok ?u" using h live by (simp add: leader_ok_def)
    ultimately show ?thesis using False Some by (simp add: setSelection_def Let_def)
  qed
qed

subsection \<open>Clicks keep the invariants\<close>

lemma store_ok_clearSelection_loop [simp]:
  "store_ok (clearSelection_loop xs s) = store_ok s"
  by (induction xs arbitrary: s) simp_all

lemma store_ok_clearSelection [simp]: "store_ok (clearSelection s) = store_ok s"
  by (simp add: clearSelection_def)

lemma selectItemNoModifiers_inv:
  assumes "store_ok s" and "h \<in> set (m_itemsInOrder s)"
  shows "store_ok (fst (selectItemNoModifiers s h)) \<and> leader_ok (fst (selectItemNoModifiers s h))"
proof -
  from assms have live: "m_items s h \<noteq> None" by (rule store_ok_live)
  let ?u = "moveToSelected h (modifyItem h (setSelectionLeader True)
              ((clearSelection s)\<lparr>m_pSelectionLeader := Some h\<rparr>))"
  have "store_ok ?u" using assms by (intro store_ok_moveToSelected) simp_all
  moreover have "leader_ok ?u" using assms(2) live by (simp add: leader_ok_def)
  ultimately show ?thesis by (simp add: selectItemNoModifiers_def Let_def)
qed

lemma multipleItemsSelected_other:
  assumes "store_ok s" and "multipleItemsSelected s"
  shows "\<exists>h'. h' \<in> set (m_itemsInOrder s) \<and> h' \<noteq> h \<and> isSelected s h'"
proof -
  from assms(2) obtain a b rest where
    ab: "m_selectedThenUnselected s = a # b # rest" "isSelected s a" "isSelected s b"
    by (auto simp: multipleItemsSelected_def split: list.splits)
  with assms(1) have "a \<noteq> b" "a \<in> set (m_itemsInOrder s)" "b \<in> set (m_itemsInOrder s)"
    by (auto simp: store_ok_def)
  with ab show ?thesis by (cases "a = h") auto
qed

lemma pickLeader_returns:
  assumes "distinct xs" and "h \<in> set xs" and "h' \<in> set xs" and "h' \<noteq> h" and "sel h'"
  shows "\<exists>m<length xs. pickLeader sel xs (index_of h xs) (index_of h xs) = Some (xs ! m)
            \<and> sel (xs ! m)"
proof -
  let ?i = "index_of h xs" and ?j = "index_of h' xs"
  have i: "?i < length xs" "xs ! ?i = h" using assms(2) by (simp_all add: index_of_less)
  have j: "?j < length xs" "xs ! ?j = h'" using assms(3) by (simp_all add: index_of_less)
  have jne: "?j \<noteq> ?i" using i j assms(4) by metis
  have "\<exists>m<length xs. pickLeader sel xs (?i - 0) (min (?i + 0) (length xs)) = Some (xs ! m)
           \<and> m \<noteq> ?i \<and> sel (xs ! m)
           \<and> (\<forall>k<length xs. k \<noteq> ?i \<and> sel (xs ! k) \<longrightarrow> orderDistance ?i m \<le> orderDistance ?i k)
           \<and> (?i < m \<longrightarrow> (\<forall>k<?i. sel (xs ! k) \<longrightarrow> ?i - k \<noteq> m - ?i))"
  proof (rule pickLeader_nearest [OF i(1) _ j(1) jne])
    show "\<forall>k<length xs. k \<noteq> ?i \<and> orderDistance ?i k \<le> 0 \<longrightarrow> \<not> sel (xs ! k)"
      by (auto simp: orderDistance_def split: if_splits)
    show "sel (xs ! ?j)" using j assms(5) by simp
  qed
  then show ?thesis using i(1) by (auto simp: min_def)
qed

lemma selectItemWithControl_inv:
  assumes "store_ok s" and "leader_ok s" and "h \<in> set (m_itemsInOrder s)"
    and "selectItemWithControl s h = Inr (s', sigs)"
  shows "store_ok s' \<and> leader_ok s'"
proof -
  from assms(1,3) have live: "m_items s h \<noteq> None" by (rule store_ok_live)
  show ?thesis
  proof (cases "isSelected s h")
    case False
    let ?s0 = "case m_pSelectionLeader s of
                 Some l \<Rightarrow> modifyItem l (setSelectionLeader False) s | None \<Rightarrow> s"
    let ?u = "moveToSelected h (modifyItem h (setSelectionLeader True)
                (?s0\<lparr>m_pSelectionLeader := Some h\<rparr>))"
    have f: "m_itemsInOrder ?s0 = m_itemsInOrder s" "store_ok ?s0" "m_items ?s0 h \<noteq> None"
      using assms(1) live by (cases "m_pSelectionLeader s"; simp)+
    have "store_ok ?u" using f assms(3) by (intro store_ok_moveToSelected) simp_all
    moreover have "leader_ok ?u" using f assms(3) by (simp add: leader_ok_def)
    moreover have "s' = ?u" using assms(4) False by (simp add: selectItemWithControl_def Let_def)
    ultimately show ?thesis by simp
  next
    case True
    note sel = this
    show ?thesis
    proof (cases "multipleItemsSelected s")
      case False
      with sel assms(4) have "s' = s"
        by (auto simp: selectItemWithControl_def split: option.splits)
      with assms show ?thesis by simp
    next
      case True
      let ?s1 = "moveToUnselected h (modifyItem h (setSelected False) s)"
      have ok1: "store_ok ?s1" using assms(1,3) by (intro store_ok_moveToUnselected) simp_all
      have sel1: "\<And>x. isSelected ?s1 x = (isSelected s x \<and> x \<noteq> h)" using live by auto
      show ?thesis
      proof (cases "m_pSelectionLeader s = Some h")
        case False
        with sel True assms(4) have "s' = ?s1"
          by (simp add: selectItemWithControl_def Let_def)
        moreover have "leader_ok ?s1"
          using assms(2) False sel1 by (auto simp: leader_ok_def split: option.splits)
        ultimately show ?thesis using ok1 by simp
      next
        case lead: True
        from multipleItemsSelected_other [OF assms(1) True, of h] obtain h' where
          h': "h' \<in> set (m_itemsInOrder s)" "h' \<noteq> h" "isSelected s h'" by blast
        from assms(1) have "distinct (m_itemsInOrder s)" by (simp add: store_ok_def)
        from pickLeader_returns [OF this assms(3) h'(1,2), of "isSelected ?s1"] h' sel1
        obtain m where m: "m < length (m_itemsInOrder s)"
          "pickLeader (isSelected ?s1) (m_itemsInOrder s)
             (index_of h (m_itemsInOrder s)) (index_of h (m_itemsInOrder s))
             = Some (m_itemsInOrder s ! m)"
          by auto
        let ?l = "m_itemsInOrder s ! m"
        let ?u = "modifyItem ?l (setSelectionLeader True) (?s1\<lparr>m_pSelectionLeader := Some ?l\<rparr>)"
        from m(1) have lin: "?l \<in> set (m_itemsInOrder s)" by simp
        with assms(1) have llive: "m_items s ?l \<noteq> None" by (rule store_ok_live)
        have "s' = ?u"
          using assms(4) sel True lead m(2) by (simp add: selectItemWithControl_def Let_def)
        moreover have "store_ok ?u" using ok1 by simp
        moreover have "leader_ok ?u" using lin llive by (simp add: leader_ok_def)
        ultimately show ?thesis by simp
      qed
    qed
  qed
qed

lemma selectRange_fields [simp]:
  "m_itemsInOrder (selectRange hs s) = m_itemsInOrder s"
  "(m_items (selectRange hs s) h = None) = (m_items s h = None)"
  "m_pSelectionLeader (selectRange hs s) = m_pSelectionLeader s"
  by (induction hs arbitrary: s; simp)+

lemma selectRange_store_ok:
  "store_ok s \<Longrightarrow> set hs \<subseteq> set (m_itemsInOrder s) \<Longrightarrow> store_ok (selectRange hs s)"
proof (induction hs arbitrary: s)
  case Nil
  then show ?case by simp
next
  case (Cons h hs)
  from Cons.prems have "store_ok (moveToSelected h (modifyItem h (setSelected True) s))"
    by (intro store_ok_moveToSelected) simp_all
  with Cons show ?case by simp
qed

lemma selectItemWithShift_inv:
  assumes "store_ok s" and "leader_ok s" and "h \<in> set (m_itemsInOrder s)"
    and "selectItemWithShift s h = Inr (s', sigs)"
  shows "store_ok s' \<and> leader_ok s'"
proof (cases "m_pSelectionLeader s")
  case None
  with assms(4) have "s' = fst (selectItemNoModifiers s h)"
    by (auto simp: selectItemWithShift_def)
  with selectItemNoModifiers_inv [OF assms(1,3)] show ?thesis by simp
next
  case (Some l)
  from assms(1,3) have live: "m_items s h \<noteq> None" by (rule store_ok_live)
  show ?thesis
  proof (cases "index_of l (m_itemsInOrder s) = index_of h (m_itemsInOrder s)")
    case True
    with Some assms(4) have "s' = s" by (simp add: selectItemWithShift_def Let_def)
    with assms show ?thesis by simp
  next
    case False
    with Some assms(4) obtain swapped where
      "findEndpoint (length (m_itemsInOrder s)) (index_of h (m_itemsInOrder s))
         (index_of l (m_itemsInOrder s)) (index_of l (m_itemsInOrder s)) = Some swapped"
      by (auto simp: selectItemWithShift_def Let_def split: option.splits)
    with Some False assms(4) obtain hs where hs: "set hs \<subseteq> set (m_itemsInOrder s)"
      and s': "s' = modifyItem h (setSelectionLeader True)
                 ((modifyItem l (setSelectionLeader False) (selectRange hs s))
                    \<lparr>m_pSelectionLeader := Some h\<rparr>)"
      by (auto simp: selectItemWithShift_def Let_def dest: in_set_takeD in_set_dropD)
    from assms(1) hs have "store_ok (selectRange hs s)" by (rule selectRange_store_ok)
    then have "store_ok s'" using s' by simp
    moreover have "leader_ok s'" using s' assms(3) live by (simp add: leader_ok_def)
    ultimately show ?thesis by simp
  qed
qed

lemma itemSelectedByUser_inv:
  assumes "store_ok s" and "leader_ok s" and "h \<in> set (m_itemsInOrder s)"
    and "itemSelectedByUser s h modifiers = Inr (s', sigs)"
  shows "store_ok s' \<and> leader_ok s'"
proof (cases "ControlModifier \<in> modifiers")
  case True
  with assms(4) have "selectItemWithControl s h = Inr (s', sigs)"
    by (simp add: itemSelectedByUser_def)
  with assms(1,2,3) show ?thesis by (rule selectItemWithControl_inv)
next
  case False
  note nc = this
  show ?thesis
  proof (cases "ShiftModifier \<in> modifiers")
    case True
    with nc assms(4) have "selectItemWithShift s h = Inr (s', sigs)"
      by (simp add: itemSelectedByUser_def)
    with assms(1,2,3) show ?thesis by (rule selectItemWithShift_inv)
  next
    case False
    with nc assms(4) have "s' = fst (selectItemNoModifiers s h)"
      by (auto simp: itemSelectedByUser_def)
    with selectItemNoModifiers_inv [OF assms(1,3)] show ?thesis by simp
  qed
qed

subsection \<open>reset establishes the invariants\<close>

lemma clear_fields [simp]:
  "m_itemsInOrder (clear s) = []"
  "m_selectedThenUnselected (clear s) = []"
  "m_pSelectionLeader (clear s) = None"
  "m_ptrOrderProvider (clear s) = m_ptrOrderProvider s"
  by (simp_all add: clear_def)

lemma store_ok_clear [simp]: "store_ok (clear s)"
  by (simp add: store_ok_def)

lemma push_back_nonempty: "m_itemsInOrder (push_back it s) \<noteq> []"
proof (cases "findById s (pageId it)")
  case None
  then show ?thesis by (simp add: push_back_def insertAt_def Let_def)
next
  case (Some h)
  then have "h \<in> set (m_itemsInOrder s)" by (rule findById_mem)
  with Some show ?thesis by (auto simp: push_back_def insertAt_def)
qed

lemma reset_step_unfold:
  assumes "c = setPos (0, off) (getCompositeItem vis page_info (int i))"
    and "s2 = push_back (Item_new page_info (int i) c)
                (s\<lparr>m_sceneRect := updateSceneRect c (m_sceneRect s)\<rparr>)"
    and "item = last (m_itemsInOrder s2)"
    and "s3 = (if id' page_info \<in> selected
               then moveToSelected item (modifyItem item (setSelected True) s2) else s2)"
  shows "reset_step vis selected sl page_info i (s, some, off) =
           (if id' page_info = id' sl then s3\<lparr>m_pSelectionLeader := Some item\<rparr> else s3,
            if id' page_info \<in> selected then Some item else some,
            off + ht (boundingRect c) + SPACING)"
  unfolding reset_step_def Let_def prod.case assms by (rule refl)

lemma reset_step_inv:
  assumes "reset_inv acc"
  shows "reset_inv (reset_step vis selected sl page_info i acc)"
proof (cases acc)
  case (fields s some off)
  define c where "c = setPos (0, off) (getCompositeItem vis page_info (int i))"
  define s2 where "s2 = push_back (Item_new page_info (int i) c)
                (s\<lparr>m_sceneRect := updateSceneRect c (m_sceneRect s)\<rparr>)"
  define item where "item = last (m_itemsInOrder s2)"
  define s3 where "s3 = (if id' page_info \<in> selected
               then moveToSelected item (modifyItem item (setSelected True) s2) else s2)"
  note eq = reset_step_unfold [OF c_def s2_def item_def s3_def, of sl some]
  from assms fields have ok: "store_ok s"
    and l: "\<And>h. m_pSelectionLeader s = Some h \<Longrightarrow> h \<in> set (m_itemsInOrder s)"
    and sm: "\<And>h. some = Some h \<Longrightarrow> h \<in> set (m_itemsInOrder s)"
    by (auto simp: reset_inv_def)
  have ok2: "store_ok s2" unfolding s2_def push_back_def
    using ok by (intro store_ok_insertAt) simp
  have mono: "set (m_itemsInOrder s) \<subseteq> set (m_itemsInOrder s2)"
    unfolding s2_def push_back_def
    using insertAt_mono [of "s\<lparr>m_sceneRect := updateSceneRect c (m_sceneRect s)\<rparr>"] by simp
  have lead2: "m_pSelectionLeader s2 = m_pSelectionLeader s"
    by (simp add: s2_def push_back_def)
  have item: "item \<in> set (m_itemsInOrder s2)"
    unfolding item_def s2_def by (rule last_in_set) (rule push_back_nonempty)
  have ok3: "store_ok s3" and ord3: "m_itemsInOrder s3 = m_itemsInOrder s2"
    and lead3: "m_pSelectionLeader s3 = m_pSelectionLeader s2"
    using ok2 item by (auto simp: s3_def intro: store_ok_moveToSelected)
  show ?thesis
    unfolding fields eq reset_inv_def
    using ok3 ord3 lead3 lead2 item mono l sm by auto
qed

lemma reset_loop_inv:
  "reset_inv acc \<Longrightarrow> reset_inv (reset_loop vis selected sl pages i acc)"
  by (induction pages arbitrary: i acc) (simp_all add: reset_step_inv)

lemma reset_leader_inv:
  assumes "store_ok s" and "\<And>h. m_pSelectionLeader s = Some h \<Longrightarrow> h \<in> set (m_itemsInOrder s)"
    and "\<And>h. some = Some h \<Longrightarrow> h \<in> set (m_itemsInOrder s)"
  shows "store_ok (reset_leader pages some s)
       \<and> m_itemsInOrder (reset_leader pages some s) = m_itemsInOrder s
       \<and> (\<forall>h. m_pSelectionLeader (reset_leader pages some s) = Some h
              \<longrightarrow> h \<in> set (m_itemsInOrder s))"
  using assms
  by (auto simp: reset_leader_def store_ok_moveToSelected dest: findById_mem
           split: option.splits)

lemma reset_invariants:
  "store_ok (fst (reset s vis pages selection_action order_provider))
   \<and> leader_ok (fst (reset s vis pages selection_action order_provider))"
proof -
  define s0 where "s0 = s\<lparr>m_ptrOrderProvider := order_provider\<rparr>"
  define selected where
    "selected = (if selection_action = KEEP_SELECTION then selectedItems s0 else {})"
  define sl where "sl =
            (if selection_action = KEEP_SELECTION
             then (case m_pSelectionLeader s0 of
                     Some l \<Rightarrow> pageInfo (deref s0 l)
                   | None \<Rightarrow> PageInfo_null)
             else PageInfo_null)"
  define sorted_pages where "sorted_pages =
                 (case m_ptrOrderProvider (clear s0) of
                    Some prec \<Rightarrow> stable_sort (comparator prec) (snapshotPages pages)
                  | None \<Rightarrow> snapshotPages pages)"
  define looped where "looped = reset_loop vis selected sl sorted_pages 0 (clear s0, None, 0)"
  define t where "t = reset_leader pages (fst (snd looped)) (commitSceneRect (fst looped))"
  have r: "reset s vis pages selection_action order_provider =
      (if length (snapshotPages pages) = 0 then (clear s0, [])
       else (case m_pSelectionLeader t of
                 Some l \<Rightarrow>
                   (modifyItem l (setSelectionLeader True) t,
                    [emitNewSelectionLeader sl
                       (composite (deref (modifyItem l (setSelectionLeader True) t) l))
                       DEFAULT_SELECTION_FLAGS])
               | None \<Rightarrow> (t, [])))"
    unfolding reset_def Let_def s0_def selected_def sl_def sorted_pages_def looped_def t_def
    by (rule refl)
  have "reset_inv (clear s0, None, 0)" by (simp add: reset_inv_def)
  then have "reset_inv looped" unfolding looped_def by (rule reset_loop_inv)
  then have t: "store_ok t"
      "\<And>h. m_pSelectionLeader t = Some h \<Longrightarrow> h \<in> set (m_itemsInOrder t)"
    using reset_leader_inv [of "commitSceneRect (fst looped)" "fst (snd looped)" pages]
    by (auto simp: reset_inv_def t_def)
  show ?thesis
  proof (cases "length (snapshotPages pages) = 0")
    case True
    then show ?thesis by (simp add: r leader_ok_def)
  next
    case False
    show ?thesis
    proof (cases "m_pSelectionLeader t")
      case None
      with False t show ?thesis by (simp add: r leader_ok_def)
    next
      case (Some l)
      with t have lin: "l \<in> set (m_itemsInOrder t)" by simp
      with t(1) have "m_items t l \<noteq> None" by (rule store_ok_live)
      with False Some t lin show ?thesis by (simp add: r leader_ok_def)
    qed
  qed
qed

subsection \<open>The leader of a reachable state\<close>

lemma reachable_invariants: "reachable s \<Longrightarrow> store_ok s \<and> leader_ok s"
proof (induction rule: reachable.induct)
  case reach_init
  show ?case by (simp add: Impl_init_def store_ok_def leader_ok_def)
next
  case (reach_reset s vis pages selection_action order_provider)
  show ?case by (rule reset_invariants)
next
  case (reach_insert s vis new_page before_or_after img)
  then show ?case by (simp add: insert_store_ok insert_leader_ok)
next
  case (reach_removePages s to_remove s' sigs)
  then show ?case using removePages_inv by blast
next
  case (reach_invalidateThumbnail s vis page_id)
  then show ?case by (simp add: invalidate_inv)
next
  case (reach_invalidateAllThumbnails s vis)
  then show ?case by (simp add: invalidate_inv)
next
  case (reach_setSelection s page_id)
  then show ?case by (simp add: setSelection_inv)
next
  case (reach_click s h modifiers s' sigs)
  then show ?case using itemSelectedByUser_inv by blast
qed

text \<open>
  Claim C1.  In every reachable state of the controller (the state after construction
  and every state in which \<^verbatim>\<open>reset\<close>, \<^verbatim>\<open>insert\<close>, \<^verbatim>\<open>removePages\<close>,
  \<^verbatim>\<open>invalidateThumbnail\<close>, \<^verbatim>\<open>invalidateAllThumbnails\<close>, \<^verbatim>\<open>setSelection\<close> or a click
  with or without modifiers returns), a non-null \<^verbatim>\<open>m_pSelectionLeader\<close> points to an
  item of the container whose \<^verbatim>\<open>m_isSelected\<close> is true.
\<close>

theorem leader_is_selected:
  assumes "reachable s" and "m_pSelectionLeader s = Some h"
  shows "h \<in> set (m_itemsInOrder s) \<and> (\<exists>it. m_items s h = Some it \<and> m_isSelected it)"
proof -
  from assms(1) have "leader_ok s" by (simp add: reachable_invariants)
  with assms(2) show ?thesis
    by (auto simp: leader_ok_def isSelected_def split: option.splits)
qed

theorem leader_is_selected_witness:
  "reachable ex_two \<and> m_pSelectionLeader ex_two = Some 2
   \<and> 2 \<in> set (m_itemsInOrder ex_two) \<and> (\<exists>it. m_items ex_two 2 = Some it \<and> m_isSelected it)"
proof -
  have l: "m_pSelectionLeader ex_two = Some 2" by code_simp
  from leader_is_selected [OF ex_two_reachable l] ex_two_reachable l show ?thesis by simp
qed

subsection \<open>The removal loop of removePages\<close>

lemma deref_erase: "x \<noteq> h \<Longrightarrow> deref (erase h s) x = deref s x"
  by (simp add: erase_def deref_def)

lemma removePages_step_pageInfo:
  assumes "x \<noteq> h \<or> id' (pageInfo (deref (fst acc) x)) \<notin> to_remove"
  shows "pageInfo (deref (fst (removePages_step to_remove h acc)) x) = pageInfo (deref (fst acc) x)"
proof (cases acc)
  case (fields s dy imgs)
  show ?thesis
  proof (cases "id' (pageInfo (deref s h)) \<notin> to_remove")
    case True
    have "pageInfo (deref (modifyItem h (\<lambda>it. setComposite (g it) it) s) x) = pageInfo (deref s x)" for g
      by (rule deref_modifyItem_proj) (simp add: setComposite_def)
    with True fields show ?thesis by (simp add: removePages_step_def Let_def)
  next
    case False
    with assms fields have "x \<noteq> h" by auto
    with False fields show ?thesis by (simp add: removePages_step_def Let_def deref_erase)
  qed
qed

lemma removePages_step_order:
  "m_itemsInOrder (fst (removePages_step to_remove h acc)) =
     (if id' (pageInfo (deref (fst acc) h)) \<notin> to_remove then m_itemsInOrder (fst acc)
      else remove1 h (m_itemsInOrder (fst acc)))"
  by (cases acc) (simp add: removePages_step_def Let_def)

lemma removePages_step_images:
  "snd (snd (removePages_step to_remove h acc)) =
     (if id' (pageInfo (deref (fst acc) h)) \<in> to_remove
         \<and> subPage (id' (pageInfo (deref (fst acc) h))) \<noteq> SINGLE_PAGE
      then snd (snd acc) @ [imageOf (fst acc) h] else snd (snd acc))"
  by (cases acc) (simp add: removePages_step_def Let_def imageOf_def split: SubPage.splits)

lemma removePages_loop_pageInfo:
  assumes "x \<notin> set hs \<or> id' (pageInfo (deref (fst acc) x)) \<notin> to_remove"
  shows "pageInfo (deref (fst (removePages_loop to_remove hs acc)) x) = pageInfo (deref (fst acc) x)"
  using assms
proof (induction hs arbitrary: acc)
  case Nil
  show ?case by simp
next
  case (Cons h hs)
  from Cons.prems have a: "x \<noteq> h \<or> id' (pageInfo (deref (fst acc) x)) \<notin> to_remove" by auto
  note st = removePages_step_pageInfo [OF a]
  from Cons.prems st have
    "x \<notin> set hs \<or> id' (pageInfo (deref (fst (removePages_step to_remove h acc)) x)) \<notin> to_remove"
    by auto
  from Cons.IH [OF this] st show ?case by simp
qed

lemma removePages_loop_order:
  assumes "store_ok (fst acc)"
  shows "x \<in> set (m_itemsInOrder (fst (removePages_loop to_remove hs acc))) \<longleftrightarrow>
           x \<in> set (m_itemsInOrder (fst acc))
           \<and> \<not> (x \<in> set hs \<and> id' (pageInfo (deref (fst acc) x)) \<in> to_remove)"
  using assms
proof (induction hs arbitrary: acc)
  case Nil
  show ?case by simp
next
  case (Cons h hs)
  let ?acc1 = "removePages_step to_remove h acc"
  from Cons.prems have ok1: "store_ok (fst ?acc1)" by (rule removePages_step_store_ok)
  from Cons.prems have d: "distinct (m_itemsInOrder (fst acc))" by (simp add: store_ok_def)
  note IH = Cons.IH [OF ok1]
  show ?case
  proof (cases "x = h")
    case True
    show ?thesis
    proof (cases "id' (pageInfo (deref (fst acc) h)) \<in> to_remove")
      case rm: True
      with d True IH show ?thesis by (simp add: removePages_step_order)
    next
      case keep: False
      then have "pageInfo (deref (fst ?acc1) h) = pageInfo (deref (fst acc) h)"
        by (intro removePages_step_pageInfo) simp
      with keep True IH show ?thesis by (simp add: removePages_step_order)
    qed
  next
    case False
    then have "pageInfo (deref (fst ?acc1) x) = pageInfo (deref (fst acc) x)"
      by (intro removePages_step_pageInfo) simp
    with False d IH show ?thesis by (simp add: removePages_step_order)
  qed
qed

lemma removePages_loop_images:
  assumes "distinct hs"
  shows "set (snd (snd (removePages_loop to_remove hs acc))) =
           set (snd (snd acc))
           \<union> imageOf (fst acc) `
               {h \<in> set hs. id' (pageInfo (deref (fst acc) h)) \<in> to_remove
                  \<and> subPage (id' (pageInfo (deref (fst acc) h))) \<noteq> SINGLE_PAGE}"
  using assms
proof (induction hs arbitrary: acc)
  case Nil
  show ?case by simp
next
  case (Cons h hs)
  let ?acc1 = "removePages_step to_remove h acc"
  from Cons.prems have nin: "h \<notin> set hs" and d: "distinct hs" by auto
  have same: "pageInfo (deref (fst ?acc1) x) = pageInfo (deref (fst acc) x)" if "x \<in> set hs" for x
    using that nin by (intro removePages_step_pageInfo) auto
  have A: "{x \<in> set hs. id' (pageInfo (deref (fst ?acc1) x)) \<in> to_remove
                 \<and> subPage (id' (pageInfo (deref (fst ?acc1) x))) \<noteq> SINGLE_PAGE}
           = {x \<in> set hs. id' (pageInfo (deref (fst acc) x)) \<in> to_remove
                 \<and> subPage (id' (pageInfo (deref (fst acc) x))) \<noteq> SINGLE_PAGE}"
    using same by auto
  have B: "imageOf (fst ?acc1) ` {x \<in> set hs. P x} = imageOf (fst acc) ` {x \<in> set hs. P x}" for P
    by (rule image_cong) (auto simp: imageOf_def same)
  from Cons.IH [OF d, of ?acc1] show ?case
    unfolding A B by (auto simp: removePages_step_images)
qed

subsection \<open>The identity index and the items of one image\<close>

lemma PageId_key_least:
  "imageId p = X \<Longrightarrow> PageId_key (PageId X SINGLE_PAGE) \<le> PageId_key p"
  by (cases p) (auto simp: PageId_key_def less_eq_prod_def)

lemma PageId_key_between:
  assumes "PageId_key (PageId X SINGLE_PAGE) \<le> PageId_key p"
    and "PageId_key p \<le> PageId_key q" and "imageId q = X"
  shows "imageId p = X"
proof -
  obtain f n where X: "X = ImageId f n" by (cases X)
  obtain f' n' sp where p: "p = PageId (ImageId f' n') sp"
    by (cases p; cases "imageId p") auto
  obtain sq where q: "q = PageId (ImageId f n) sq"
    using assms(3) X by (cases q) auto
  from assms(1,2) show ?thesis
    unfolding X p q by (auto simp: PageId_key_def less_eq_prod_def)
qed

lemma sorted_itemsById: "sorted (map (\<lambda>h. PageId_key (pageId (deref s h))) (itemsById s))"
  by (simp add: itemsById_def)

lemma distinct_itemsById: "distinct (itemsById s) = distinct (m_itemsInOrder s)"
  by (simp add: itemsById_def)

lemma in_dropWhile: "x \<in> set xs \<Longrightarrow> \<not> Q x \<Longrightarrow> x \<in> set (dropWhile Q xs)"
  by (induction xs) auto

lemma sameImageRange_none:
  assumes "\<And>h. h \<in> set (m_itemsInOrder s) \<Longrightarrow> imageOf s h \<noteq> X"
  shows "sameImageRange s X = []"
proof -
  let ?D = "dropWhile (\<lambda>h. \<not> PageId_key (PageId X SINGLE_PAGE) \<le> PageId_key (pageId (deref s h)))
              (itemsById s)"
  have "?D = [] \<or> imageOf s (hd ?D) \<noteq> X"
  proof (cases "?D = []")
    case False
    then have "hd ?D \<in> set ?D" by simp
    then have "hd ?D \<in> set (itemsById s)" by (rule set_dropWhileD)
    with assms show ?thesis by simp
  qed simp
  then show ?thesis
    unfolding sameImageRange_def imageOf_def [symmetric] by (simp add: takeWhile_eq_Nil_iff)
qed

lemma sameImageRange_single:
  assumes d: "distinct (m_itemsInOrder s)" and one: "atMostOne s X"
    and h: "h \<in> set (m_itemsInOrder s)" and img: "imageOf s h = X"
  shows "sameImageRange s X = [h]"
proof -
  let ?key = "\<lambda>h. PageId_key (pageId (deref s h))"
  let ?Q = "\<lambda>h. \<not> PageId_key (PageId X SINGLE_PAGE) \<le> ?key h"
  let ?L = "itemsById s"
  let ?D = "dropWhile ?Q ?L"
  have imgId: "\<And>x. imageOf s x = imageId (pageId (deref s x))"
    by (simp add: imageOf_def PageInfo_imageId_def pageId_def)
  have nQ: "\<not> ?Q h" using img by (simp add: PageId_key_least imgId)
  have hD: "h \<in> set ?D" using h nQ by (intro in_dropWhile) simp_all
  then obtain e rest where D: "?D = e # rest" by (cases ?D) auto
  have ge: "PageId_key (PageId X SINGLE_PAGE) \<le> ?key e"
    using D hd_dropWhile [of ?Q ?L] by simp
  have "sorted (map ?key (takeWhile ?Q ?L @ ?D))" using sorted_itemsById [of s] by simp
  then have "sorted (map ?key ?D)" unfolding map_append sorted_append by blast
  then have le: "\<And>y. y \<in> set rest \<Longrightarrow> ?key e \<le> ?key y" using D by auto
  have sub: "set ?D \<subseteq> set (m_itemsInOrder s)"
    using set_dropWhileD [of _ ?Q ?L] by auto
  have dD: "distinct ?D" using d by (simp add: distinct_itemsById)
  have eh: "e = h"
  proof (rule ccontr)
    assume "e \<noteq> h"
    with hD D have "h \<in> set rest" by auto
    then have "?key e \<le> ?key h" by (rule le)
    with ge have "imageId (pageId (deref s e)) = X"
      by (rule PageId_key_between) (simp add: img [symmetric] imgId)
    then have "imageOf s e = X" by (simp add: imgId)
    moreover have "e \<in> set (m_itemsInOrder s)" using sub D by auto
    ultimately have "e = h" using one h img by (auto simp: atMostOne_def)
    with \<open>e \<noteq> h\<close> show False by simp
  qed
  have "takeWhile (\<lambda>x. imageOf s x = X) rest = []"
  proof (cases rest)
    case Nil
    then show ?thesis by simp
  next
    case (Cons r rs)
    have "imageOf s r \<noteq> X"
    proof
      assume "imageOf s r = X"
      moreover have "r \<in> set (m_itemsInOrder s)" using sub D Cons by auto
      ultimately have "r = h" using one h img by (auto simp: atMostOne_def)
      with dD D eh Cons show False by simp
    qed
    with Cons show ?thesis by simp
  qed
  then show ?thesis
    unfolding sameImageRange_def imageOf_def [symmetric] D using eh img by simp
qed

lemma modify_unique:
  assumes "atMostOne s X" and "h \<in> set (m_itemsInOrder s)" and "imageOf s h = X"
  shows "modify h (PageId X SINGLE_PAGE) s =
           Inr (modifyItem h (\<lambda>it. it\<lparr>pageInfo := setId (PageId X SINGLE_PAGE) (pageInfo it)\<rparr>) s)"
proof -
  have "\<not> list_ex (\<lambda>h'. h' \<noteq> h \<and> pageId (deref s h') = PageId X SINGLE_PAGE) (m_itemsInOrder s)"
  proof
    assume "list_ex (\<lambda>h'. h' \<noteq> h \<and> pageId (deref s h') = PageId X SINGLE_PAGE) (m_itemsInOrder s)"
    then obtain h' where "h' \<in> set (m_itemsInOrder s)" "h' \<noteq> h"
      "pageId (deref s h') = PageId X SINGLE_PAGE"
      by (auto simp: list_ex_iff)
    moreover then have "imageOf s h' = X"
      by (simp add: imageOf_def PageInfo_imageId_def pageId_def)
    ultimately show False using assms by (auto simp: atMostOne_def)
  qed
  then show ?thesis by (simp add: modify_def)
qed

subsection \<open>Singularizing the remaining halves\<close>

lemma imageOf_pageId: "imageOf s x = imageId (pageId (deref s x))"
  by (simp add: imageOf_def PageInfo_imageId_def pageId_def)

lemma singularize_image:
  assumes ok: "store_ok s" and one: "atMostOne s X"
  shows "\<exists>s'. singularize_loop X (sameImageRange s X) s = Inr s'
           \<and> m_itemsInOrder s' = m_itemsInOrder s
           \<and> (\<forall>x \<in> set (m_itemsInOrder s).
                 pageId (deref s' x) =
                   (if imageOf s x = X then PageId X SINGLE_PAGE else pageId (deref s x)))"
proof (cases "\<exists>h \<in> set (m_itemsInOrder s). imageOf s h = X")
  case False
  then have "sameImageRange s X = []" by (intro sameImageRange_none) auto
  with False show ?thesis by auto
next
  case True
  then obtain h where h: "h \<in> set (m_itemsInOrder s)" "imageOf s h = X" by blast
  from ok have d: "distinct (m_itemsInOrder s)" by (simp add: store_ok_def)
  from ok h(1) have live: "m_items s h \<noteq> None" by (rule store_ok_live)
  let ?s' = "modifyItem h (\<lambda>it. it\<lparr>pageInfo := setId (PageId X SINGLE_PAGE) (pageInfo it)\<rparr>) s"
  have r: "sameImageRange s X = [h]" using d one h by (rule sameImageRange_single)
  have m: "modify h (PageId X SINGLE_PAGE) s = Inr ?s'" using one h by (rule modify_unique)
  have "\<forall>x \<in> set (m_itemsInOrder s).
          pageId (deref ?s' x) =
            (if imageOf s x = X then PageId X SINGLE_PAGE else pageId (deref s x))"
  proof
    fix x assume x: "x \<in> set (m_itemsInOrder s)"
    show "pageId (deref ?s' x) =
            (if imageOf s x = X then PageId X SINGLE_PAGE else pageId (deref s x))"
    proof (cases "x = h")
      case True
      with live h(2) show ?thesis
        by (simp add: deref_modifyItem_live pageId_def setId_def)
    next
      case False
      with one h x have "imageOf s x \<noteq> X" by (auto simp: atMostOne_def)
      with False live show ?thesis by (simp add: deref_modifyItem_live)
    qed
  qed
  with r m show ?thesis by simp
qed

lemma singularize_all:
  assumes "store_ok s" and "\<forall>X \<in> set imgs. atMostOne s X"
  shows "\<exists>s'. singularize imgs s = Inr s'
           \<and> m_itemsInOrder s' = m_itemsInOrder s
           \<and> (\<forall>x \<in> set (m_itemsInOrder s).
                 pageId (deref s' x) =
                   (if imageOf s x \<in> set imgs then PageId (imageOf s x) SINGLE_PAGE
                    else pageId (deref s x)))"
  using assms
proof (induction imgs arbitrary: s)
  case Nil
  then show ?case by simp
next
  case (Cons X rest)
  from Cons.prems have one: "atMostOne s X" by simp
  from singularize_image [OF Cons.prems(1) one] obtain s1 where
    s1: "singularize_loop X (sameImageRange s X) s = Inr s1"
        "m_itemsInOrder s1 = m_itemsInOrder s"
        "\<And>x. x \<in> set (m_itemsInOrder s) \<Longrightarrow>
            pageId (deref s1 x) =
              (if imageOf s x = X then PageId X SINGLE_PAGE else pageId (deref s x))"
    by blast
  have img1: "\<And>x. x \<in> set (m_itemsInOrder s) \<Longrightarrow> imageOf s1 x = imageOf s x"
    using s1(3) by (simp add: imageOf_pageId)
  have ok1: "store_ok s1"
    using sameSelection_singularize_loop [OF s1(1) sameSelection_refl] Cons.prems(1)
    by (rule sameSelection_store_ok)
  have "\<forall>Y \<in> set rest. atMostOne s1 Y"
    using Cons.prems(2) img1 s1(2) by (auto simp: atMostOne_def)
  from Cons.IH [OF ok1 this] obtain s' where
    s': "singularize rest s1 = Inr s'" "m_itemsInOrder s' = m_itemsInOrder s1"
        "\<And>x. x \<in> set (m_itemsInOrder s1) \<Longrightarrow>
            pageId (deref s' x) =
              (if imageOf s1 x \<in> set rest then PageId (imageOf s1 x) SINGLE_PAGE
               else pageId (deref s1 x))"
    by blast
  have "\<forall>x \<in> set (m_itemsInOrder s).
          pageId (deref s' x) =
            (if imageOf s x \<in> set (X # rest) then PageId (imageOf s x) SINGLE_PAGE
             else pageId (deref s x))"
    using s'(3) s1(2,3) img1 by auto
  with s1(1,2) s'(1,2) show ?case by simp
qed

lemma removePages_loop_store_ok:
  "store_ok (fst acc) \<Longrightarrow> store_ok (fst (removePages_loop to_remove hs acc))"
  by (induction hs arbitrary: acc) (simp_all add: removePages_step_store_ok)

lemma twoSided_okD:
  "twoSided_ok s \<Longrightarrow> a \<in> set (m_itemsInOrder s) \<Longrightarrow> b \<in> set (m_itemsInOrder s)
     \<Longrightarrow> a \<noteq> b \<Longrightarrow> imageOf s a = imageOf s b \<Longrightarrow> subPage (pageId (deref s a)) \<noteq> SINGLE_PAGE"
  by (auto simp: twoSided_ok_def list_all_iff)

lemma ids_okD:
  "ids_ok s \<Longrightarrow> a \<in> set (m_itemsInOrder s) \<Longrightarrow> b \<in> set (m_itemsInOrder s)
     \<Longrightarrow> pageId (deref s a) = pageId (deref s b) \<Longrightarrow> a = b"
  by (auto simp: ids_ok_def orderIds_def distinct_map inj_on_def)

lemma half_cases:
  "subPage p \<noteq> SINGLE_PAGE \<Longrightarrow> p = PageId (imageId p) LEFT_PAGE \<or> p = PageId (imageId p) RIGHT_PAGE"
  by (cases p; cases "subPage p") auto

text \<open>
  Claim C9.  In a container that follows the designation of pages (distinct
  identities; no \<^verbatim>\<open>SINGLE_PAGE\<close> item shares its image with another item), let item
  \<open>a\<close> be removed by \<^verbatim>\<open>removePages\<close> and item \<open>b\<close>, the other half of the same
  image, not be removed.  Then \<^verbatim>\<open>removePages\<close> returns, \<open>a\<close> is gone, \<open>b\<close> is still
  in the container and its identity is the \<^verbatim>\<open>SINGLE_PAGE\<close> of its image.
\<close>

theorem removePages_singularizes:
  assumes "store_ok s" and "ids_ok s" and "twoSided_ok s"
    and "a \<in> set (m_itemsInOrder s)" and "b \<in> set (m_itemsInOrder s)"
    and "a \<noteq> b" and "imageOf s a = imageOf s b"
    and "pageId (deref s a) \<in> to_remove" and "pageId (deref s b) \<notin> to_remove"
  shows "\<exists>s'. removePages s to_remove = Inr (s', [])
           \<and> a \<notin> set (m_itemsInOrder s') \<and> b \<in> set (m_itemsInOrder s')
           \<and> subPage (pageId (deref s a)) \<noteq> SINGLE_PAGE
           \<and> subPage (pageId (deref s b)) \<noteq> SINGLE_PAGE
           \<and> pageId (deref s' b) = PageId (imageOf s b) SINGLE_PAGE"
proof -
  let ?R = to_remove
  define s0 where "s0 = s\<lparr>m_sceneRect := \<lparr>xp = 0, yp = 0, wd = 0, ht = 0\<rparr>\<rparr>"
  define looped where "looped = removePages_loop ?R (m_itemsInOrder s0) (s0, 0, [])"
  define s1 where "s1 = fst looped"
  define imgs where "imgs = snd (snd looped)"
  have rp: "removePages s ?R =
      (case singularize imgs s1 of Inl e \<Rightarrow> Inl e | Inr s' \<Rightarrow> Inr (commitSceneRect s', []))"
    unfolding removePages_def Let_def s0_def looped_def s1_def imgs_def by (rule refl)
  have ok0: "store_ok (fst (s0, 0::real, []::ImageId list))" using assms(1) by (simp add: s0_def)
  have ord0: "m_itemsInOrder s0 = m_itemsInOrder s" and d0: "\<And>x. deref s0 x = deref s x"
    by (simp_all add: s0_def)
  have pid: "\<And>x. id' (pageInfo (deref s x)) = pageId (deref s x)" by (simp add: pageId_def)
  have ok1: "store_ok s1" unfolding s1_def looped_def using ok0 by (rule removePages_loop_store_ok)
  have mem1: "\<And>x. x \<in> set (m_itemsInOrder s1) \<longleftrightarrow>
                 x \<in> set (m_itemsInOrder s) \<and> pageId (deref s x) \<notin> ?R"
    unfolding s1_def looped_def removePages_loop_order [OF ok0]
    by (auto simp: ord0 d0 pid)
  have info1: "\<And>x. pageId (deref s x) \<notin> ?R \<Longrightarrow> pageInfo (deref s1 x) = pageInfo (deref s x)"
  proof -
    fix x assume "pageId (deref s x) \<notin> ?R"
    then have "x \<notin> set (m_itemsInOrder s0) \<or> id' (pageInfo (deref (fst (s0, 0::real, []::ImageId list)) x)) \<notin> ?R"
      by (simp add: d0 pid)
    from removePages_loop_pageInfo [OF this] show "pageInfo (deref s1 x) = pageInfo (deref s x)"
      by (simp add: s1_def looped_def d0)
  qed
  have img1: "\<And>x. x \<in> set (m_itemsInOrder s1) \<Longrightarrow> imageOf s1 x = imageOf s x"
    using mem1 info1 by (simp add: imageOf_def)
  have imgs: "set imgs = imageOf s ` {h \<in> set (m_itemsInOrder s). pageId (deref s h) \<in> ?R
                  \<and> subPage (pageId (deref s h)) \<noteq> SINGLE_PAGE}"
  proof -
    from assms(1) have "distinct (m_itemsInOrder s0)" by (simp add: store_ok_def ord0)
    from removePages_loop_images [OF this, of ?R "(s0, 0, [])"] show ?thesis
      unfolding imgs_def looped_def
      by (simp add: d0 pid ord0 imageOf_def)
  qed
  have one: "\<forall>X \<in> set imgs. atMostOne s1 X"
  proof
    fix X assume "X \<in> set imgs"
    with imgs obtain h where h: "h \<in> set (m_itemsInOrder s)" "pageId (deref s h) \<in> ?R"
        "subPage (pageId (deref s h)) \<noteq> SINGLE_PAGE" "imageOf s h = X"
      by auto
    have half: "pageId (deref s u) = PageId X LEFT_PAGE \<or> pageId (deref s u) = PageId X RIGHT_PAGE"
      if "u \<in> set (m_itemsInOrder s)" "imageOf s u = X" for u
    proof -
      have "subPage (pageId (deref s u)) \<noteq> SINGLE_PAGE"
      proof (cases "u = h")
        case True
        with h(3) show ?thesis by simp
      next
        case False
        with that h show ?thesis by (intro twoSided_okD [OF assms(3), of u h]) simp_all
      qed
      from half_cases [OF this] that(2) show ?thesis by (simp add: imageOf_pageId)
    qed
    show "atMostOne s1 X"
      unfolding atMostOne_def
    proof (intro ballI impI)
      fix u v assume u: "u \<in> set (m_itemsInOrder s1)" and v: "v \<in> set (m_itemsInOrder s1)"
        and uv: "imageOf s1 u = X \<and> imageOf s1 v = X"
      from u v mem1 have us: "u \<in> set (m_itemsInOrder s)" "pageId (deref s u) \<notin> ?R"
        and vs: "v \<in> set (m_itemsInOrder s)" "pageId (deref s v) \<notin> ?R" by auto
      from uv u v img1 have ui: "imageOf s u = X" and vi: "imageOf s v = X" by auto
      from us h have uh: "pageId (deref s u) \<noteq> pageId (deref s h)" by auto
      from vs h have vh: "pageId (deref s v) \<noteq> pageId (deref s h)" by auto
      from half [OF us(1) ui] half [OF vs(1) vi] half [OF h(1) h(4)] uh vh
      have "pageId (deref s u) = pageId (deref s v)" by auto
      with assms(2) us(1) vs(1) show "u = v" by (rule ids_okD)
    qed
  qed
  from singularize_all [OF ok1 one] obtain s2 where
    s2: "singularize imgs s1 = Inr s2" "m_itemsInOrder s2 = m_itemsInOrder s1"
        "\<And>x. x \<in> set (m_itemsInOrder s1) \<Longrightarrow>
            pageId (deref s2 x) =
              (if imageOf s1 x \<in> set imgs then PageId (imageOf s1 x) SINGLE_PAGE
               else pageId (deref s1 x))"
    by blast
  have a_half: "subPage (pageId (deref s a)) \<noteq> SINGLE_PAGE"
    using assms by (intro twoSided_okD [OF assms(3), of a b]) simp_all
  have b_half: "subPage (pageId (deref s b)) \<noteq> SINGLE_PAGE"
    using assms by (intro twoSided_okD [OF assms(3), of b a]) simp_all
  have b1: "b \<in> set (m_itemsInOrder s1)" using mem1 assms(5,9) by simp
  have a1: "a \<notin> set (m_itemsInOrder s1)" using mem1 assms(8) by simp
  have "imageOf s b \<in> set imgs"
    unfolding imgs using assms(4,7,8) a_half by (auto intro!: image_eqI [of _ _ a])
  with s2(3) [OF b1] img1 [OF b1]
  have "pageId (deref s2 b) = PageId (imageOf s b) SINGLE_PAGE" by simp
  with s2(1,2) a1 b1 a_half b_half show ?thesis
    by (intro exI [of _ "commitSceneRect s2"]) (simp add: rp)
qed

theorem removePages_singularizes_witness:
  "store_ok ex_state \<and> ids_ok ex_state \<and> twoSided_ok ex_state
   \<and> 2 \<in> set (m_itemsInOrder ex_state) \<and> 3 \<in> set (m_itemsInOrder ex_state)
   \<and> (2::nat) \<noteq> 3 \<and> imageOf ex_state 2 = imageOf ex_state 3
   \<and> pageId (deref ex_state 2) = PageId (ImageId ''b'' 0) LEFT_PAGE
   \<and> pageId (deref ex_state 3) = PageId (ImageId ''b'' 0) RIGHT_PAGE
   \<and> (\<exists>s'. removePages ex_state {PageId (ImageId ''b'' 0) LEFT_PAGE} = Inr (s', [])
         \<and> 2 \<notin> set (m_itemsInOrder s') \<and> 3 \<in> set (m_itemsInOrder s')
         \<and> pageId (deref s' 3) = PageId (ImageId ''b'' 0) SINGLE_PAGE)"
proof -
  have a: "store_ok ex_state" by code_simp
  have b: "ids_ok ex_state" by code_simp
  have c: "twoSided_ok ex_state" by code_simp
  have d: "2 \<in> set (m_itemsInOrder ex_state)" by code_simp
  have e: "3 \<in> set (m_itemsInOrder ex_state)" by code_simp
  have f: "(2::nat) \<noteq> 3" by simp
  have g: "imageOf ex_state 2 = imageOf ex_state 3" by code_simp
  have h: "pageId (deref ex_state 2) = PageId (ImageId ''b'' 0) LEFT_PAGE" by code_simp
  have i: "pageId (deref ex_state 3) = PageId (ImageId ''b'' 0) RIGHT_PAGE" by code_simp
  have j: "imageOf ex_state 3 = ImageId ''b'' 0" by code_simp
  have k: "pageId (deref ex_state 2) \<in> {PageId (ImageId ''b'' 0) LEFT_PAGE}" using h by simp
  have l: "pageId (deref ex_state 3) \<notin> {PageId (ImageId ''b'' 0) LEFT_PAGE}" using i by simp
  from removePages_singularizes [OF a b c d e f g k l] j
  have "\<exists>s'. removePages ex_state {PageId (ImageId ''b'' 0) LEFT_PAGE} = Inr (s', [])
         \<and> 2 \<notin> set (m_itemsInOrder s') \<and> 3 \<in> set (m_itemsInOrder s')
         \<and> pageId (deref s' 3) = PageId (ImageId ''b'' 0) SINGLE_PAGE"
    by auto
  with a b c d e f g h i show ?thesis by blast
qed

subsection \<open>Partitioned lists\<close>

lemma partitioned_part: "partitioned s = part (isSelected s) (m_selectedThenUnselected s)"
  by (simp add: partitioned_def part_def)

lemma part_Nil [simp]: "part P []"
  by (simp add: part_def)

lemma part_Cons: "part P (x # xs) = (if P x then part P xs else list_all (\<lambda>x. \<not> P x) xs)"
  by (simp add: part_def)

lemma part_none: "list_all (\<lambda>x. \<not> P x) xs \<Longrightarrow> part P xs"
  by (induction xs) (simp_all add: part_Cons)

lemma part_cong: "(\<And>x. x \<in> set xs \<Longrightarrow> P x = Q x) \<Longrightarrow> part P xs = part Q xs"
proof (induction xs)
  case Nil
  show ?case by simp
next
  case (Cons y ys)
  then have "list_all (\<lambda>x. \<not> P x) ys = list_all (\<lambda>x. \<not> Q x) ys"
    by (auto simp: list_all_iff)
  with Cons show ?case by (simp add: part_Cons)
qed

lemma part_remove1: "part P xs \<Longrightarrow> part P (remove1 x xs)"
proof (induction xs)
  case Nil
  show ?case by simp
next
  case (Cons y ys)
  have "list_all (\<lambda>x. \<not> P x) ys \<Longrightarrow> list_all (\<lambda>x. \<not> P x) (remove1 x ys)"
    by (auto simp: list_all_iff dest: notin_set_remove1)
  with Cons show ?case by (auto simp: part_Cons part_none split: if_splits)
qed

lemma part_snoc: "part P xs \<Longrightarrow> \<not> P x \<Longrightarrow> part P (xs @ [x])"
  by (induction xs) (auto simp: part_Cons split: if_splits)

lemma part_to_front:
  assumes "part P xs" and "distinct xs" and "\<And>y. y \<noteq> x \<Longrightarrow> Q y = P y" and "Q x"
  shows "part Q (x # remove1 x xs)"
proof -
  have "part P (remove1 x xs)" using assms(1) by (rule part_remove1)
  moreover have "part Q (remove1 x xs) = part P (remove1 x xs)"
    using assms(2,3) by (intro part_cong) auto
  ultimately show ?thesis using assms(4) by (simp add: part_Cons)
qed

lemma part_to_back:
  assumes "part P xs" and "distinct xs" and "\<And>y. y \<noteq> x \<Longrightarrow> Q y = P y" and "\<not> Q x"
  shows "part Q (remove1 x xs @ [x])"
proof -
  have "part P (remove1 x xs)" using assms(1) by (rule part_remove1)
  moreover have "part Q (remove1 x xs) = part P (remove1 x xs)"
    using assms(2,3) by (intro part_cong) auto
  ultimately show ?thesis using assms(4) by (simp add: part_snoc)
qed

subsection \<open>Primitive steps keep the partition\<close>

lemma partitioned_select_front:
  assumes "store_ok s" and "partitioned s" and "h \<in> set (m_itemsInOrder s)"
  shows "partitioned (moveToSelected h (modifyItem h (setSelected True) s))"
    and "partitioned (moveToSelected h (modifyItem h (setSelectionLeader True) s))"
    and "partitioned (modifyItem h (setSelectionLeader True) (moveToSelected h s))"
proof -
  from assms(1,3) have live: "m_items s h \<noteq> None" by (rule store_ok_live)
  from assms(1) have d: "distinct (m_selectedThenUnselected s)" by (simp add: store_ok_def)
  from assms(2) have p: "part (isSelected s) (m_selectedThenUnselected s)"
    by (simp add: partitioned_part)
  show "partitioned (moveToSelected h (modifyItem h (setSelected True) s))"
    unfolding partitioned_part using live by (simp, intro part_to_front [OF p d]) auto
  show "partitioned (moveToSelected h (modifyItem h (setSelectionLeader True) s))"
    unfolding partitioned_part using live by (simp, intro part_to_front [OF p d]) auto
  show "partitioned (modifyItem h (setSelectionLeader True) (moveToSelected h s))"
    unfolding partitioned_part using live by (simp, intro part_to_front [OF p d]) auto
qed

lemma partitioned_deselect_back:
  assumes "store_ok s" and "partitioned s" and "h \<in> set (m_itemsInOrder s)"
  shows "partitioned (moveToUnselected h (modifyItem h (setSelected False) s))"
proof -
  from assms(1,3) have live: "m_items s h \<noteq> None" by (rule store_ok_live)
  from assms(1) have d: "distinct (m_selectedThenUnselected s)" by (simp add: store_ok_def)
  from assms(2) have p: "part (isSelected s) (m_selectedThenUnselected s)"
    by (simp add: partitioned_part)
  show ?thesis
    unfolding partitioned_part using live by (simp, intro part_to_back [OF p d]) auto
qed

lemma partitioned_same_flags:
  assumes "partitioned s" and "m_selectedThenUnselected t = m_selectedThenUnselected s"
    and "\<And>x. isSelected t x = isSelected s x"
  shows "partitioned t"
proof -
  have "isSelected t = isSelected s" using assms(3) by (rule ext)
  with assms(1,2) show ?thesis by (simp add: partitioned_def)
qed

lemma partitioned_leader_update [simp]:
  "partitioned (s\<lparr>m_pSelectionLeader := l\<rparr>) = partitioned s"
  "partitioned (s\<lparr>m_sceneRect := r\<rparr>) = partitioned s"
  "partitioned (commitSceneRect s) = partitioned s"
proof -
  have a: "isSelected (s\<lparr>m_pSelectionLeader := l\<rparr>) = isSelected s" by (rule ext) simp
  have b: "isSelected (s\<lparr>m_sceneRect := r\<rparr>) = isSelected s" by (rule ext) simp
  have c: "isSelected (commitSceneRect s) = isSelected s" by (rule ext) simp
  show "partitioned (s\<lparr>m_pSelectionLeader := l\<rparr>) = partitioned s"
    "partitioned (s\<lparr>m_sceneRect := r\<rparr>) = partitioned s"
    "partitioned (commitSceneRect s) = partitioned s"
    by (simp_all add: partitioned_def a b c)
qed

lemma partitioned_unleader:
  "partitioned s \<Longrightarrow> partitioned (modifyItem l (setSelectionLeader False) s)"
  by (rule partitioned_same_flags) auto

lemma partitioned_releader:
  "partitioned s \<Longrightarrow> isSelected s l \<Longrightarrow> partitioned (modifyItem l (setSelectionLeader True) s)"
  by (rule partitioned_same_flags) auto

lemma partitioned_insertAt:
  assumes "store_ok s" and "partitioned s" and "\<not> m_isSelected it"
  shows "partitioned (insertAt i it s)"
proof (cases i it s rule: insertAt_cases)
  case rejected
  with assms show ?thesis by simp
next
  case (inserted h)
  from inserted(1) assms(1) have nin: "h \<notin> set (m_selectedThenUnselected s)"
    by (simp add: store_ok_def)
  let ?t = "insertAt i it s"
  have sel: "\<And>x. x \<noteq> h \<Longrightarrow> isSelected ?t x = isSelected s x" and selh: "\<not> isSelected ?t h"
    using assms(3) by (simp_all add: inserted(2) isSelected_def)
  have "part (isSelected ?t) (m_selectedThenUnselected s) = part (isSelected s) (m_selectedThenUnselected s)"
    by (intro part_cong) (metis nin sel)
  with assms(2) selh have "part (isSelected ?t) (m_selectedThenUnselected s @ [h])"
    by (simp add: part_snoc partitioned_part)
  then show ?thesis by (simp add: partitioned_part) (simp add: inserted(2))
qed

lemma partitioned_erase:
  assumes "store_ok s" and "partitioned s"
  shows "partitioned (erase h s)"
proof -
  from assms(1) have d: "distinct (m_selectedThenUnselected s)" by (simp add: store_ok_def)
  have "part (isSelected s) (remove1 h (m_selectedThenUnselected s))"
    using assms(2) by (simp add: partitioned_part part_remove1)
  moreover have "part (isSelected (erase h s)) (remove1 h (m_selectedThenUnselected s))
                   = part (isSelected s) (remove1 h (m_selectedThenUnselected s))"
    using d by (intro part_cong) (auto simp: isSelected_erase)
  ultimately show ?thesis by (simp add: partitioned_part)
qed

subsection \<open>Operations keep the partition\<close>

lemma insert_partitioned:
  assumes "store_ok s" and "partitioned s"
  shows "partitioned (fst (insert' s vis page_info before_or_after img))"
proof (cases "insertHint s before_or_after img")
  case None
  with assms show ?thesis by (simp add: insert'_def)
next
  case (Some hint)
  have shift: "partitioned t \<Longrightarrow> partitioned (shiftItems d hs t)" for t d hs
    by (rule sameSelection_partitioned [OF sameSelection_shiftItems [OF sameSelection_refl]])
  have ins: "partitioned (insertAt i (Item_new p n c) (s\<lparr>m_sceneRect := r\<rparr>))" for i p n c r
    using assms by (intro partitioned_insertAt) (simp_all add: Item_new_def)
  show ?thesis
    unfolding insert'_def Let_def option.case Some fst_conv partitioned_leader_update
    by (rule shift, rule ins)
qed

lemma removePages_step_partitioned:
  assumes "store_ok (fst acc)" and "partitioned (fst acc)"
  shows "partitioned (fst (removePages_step to_remove h acc))"
proof (cases acc)
  case (fields s dy imgs)
  show ?thesis
  proof (cases "id' (pageInfo (deref s h)) \<notin> to_remove")
    case True
    have "partitioned (modifyItem h (\<lambda>it. setComposite (g it) it) s)" for g
      using assms fields
      by (intro sameSelection_partitioned [OF sameSelection_setComposite(2) [OF sameSelection_refl]])
         simp
    with True assms fields show ?thesis by (simp add: removePages_step_def Let_def)
  next
    case False
    have "partitioned (erase h (s\<lparr>m_pSelectionLeader := None\<rparr>))"
      using assms fields by (intro partitioned_erase) simp_all
    moreover have "partitioned (erase h s)"
      using assms fields by (intro partitioned_erase) simp_all
    ultimately show ?thesis using False fields by (simp add: removePages_step_def Let_def)
  qed
qed

lemma removePages_loop_partitioned:
  "store_ok (fst acc) \<Longrightarrow> partitioned (fst acc)
     \<Longrightarrow> partitioned (fst (removePages_loop to_remove hs acc))"
  by (induction hs arbitrary: acc)
     (simp_all add: removePages_step_store_ok removePages_step_partitioned)

lemma removePages_partitioned:
  assumes "removePages s to_remove = Inr (s', sigs)" and "store_ok s" and "partitioned s"
  shows "partitioned s'"
proof -
  let ?s0 = "s\<lparr>m_sceneRect := \<lparr>xp = 0, yp = 0, wd = 0, ht = 0\<rparr>\<rparr>"
  let ?looped = "removePages_loop to_remove (m_itemsInOrder ?s0) (?s0, 0, [])"
  have "partitioned (fst ?looped)"
    using assms(2,3) by (intro removePages_loop_partitioned) simp_all
  moreover from assms(1) obtain t where t: "singularize (snd (snd ?looped)) (fst ?looped) = Inr t"
    and s': "s' = commitSceneRect t"
    by (auto simp: removePages_def Let_def split: sum.splits)
  moreover from t have "sameSelection (fst ?looped) t"
    by (rule sameSelection_singularize) simp
  ultimately show ?thesis by (simp add: sameSelection_partitioned)
qed

lemma setSelection_loop_partitioned:
  "store_ok s \<Longrightarrow> partitioned s \<Longrightarrow> set xs \<subseteq> set (m_itemsInOrder s)
     \<Longrightarrow> partitioned (setSelection_loop target xs s)"
proof (induction xs arbitrary: s)
  case Nil
  then show ?case by simp
next
  case (Cons h hs)
  let ?s1 = "moveToUnselected h (modifyItem h (setSelected False) s)"
  from Cons.prems have ok1: "store_ok ?s1" by (intro store_ok_moveToUnselected) simp_all
  from Cons.prems have p1: "partitioned ?s1" by (intro partitioned_deselect_back) simp_all
  have "partitioned (setSelection_loop target hs ?s1)"
    and "partitioned (setSelection_loop target hs (?s1\<lparr>m_pSelectionLeader := None\<rparr>))"
    using ok1 p1 Cons.prems by (auto intro!: Cons.IH)
  moreover have "partitioned (setSelection_loop target hs s)"
    using Cons.prems by (auto intro!: Cons.IH)
  ultimately show ?case using Cons.prems by (auto simp: Let_def)
qed

lemma setSelection_partitioned:
  assumes "store_ok s" and "partitioned s"
  shows "partitioned (fst (setSelection s page_id))"
proof (cases "findById s page_id")
  case None
  with assms show ?thesis by (simp add: setSelection_def)
next
  case (Some h)
  then have h: "h \<in> set (m_itemsInOrder s)" by (rule findById_mem)
  let ?t = "setSelection_loop h (m_selectedThenUnselected s) s"
  have ok: "store_ok ?t"
    using assms(1) by (intro setSelection_loop_store_ok) (simp_all add: store_ok_def)
  have p: "partitioned ?t"
    using assms by (intro setSelection_loop_partitioned) (simp_all add: store_ok_def)
  have "partitioned (moveToSelected h (modifyItem h (setSelectionLeader True)
          (?t\<lparr>m_pSelectionLeader := Some h\<rparr>)))"
    using ok p h by (intro partitioned_select_front) simp_all
  with p Some show ?thesis by (simp add: setSelection_def Let_def)
qed

lemma clearSelection_partitioned:
  assumes "store_ok s" and "partitioned s"
  shows "partitioned (clearSelection s)"
proof -
  have "list_all (\<lambda>x. \<not> isSelected (clearSelection s) x) (m_selectedThenUnselected s)"
    using clearSelection_spec [OF assms] assms(1) by (simp add: list_all_iff store_ok_def)
  then show ?thesis by (simp add: partitioned_part part_none)
qed

lemma selectItemNoModifiers_partitioned:
  assumes "store_ok s" and "partitioned s" and "h \<in> set (m_itemsInOrder s)"
  shows "partitioned (fst (selectItemNoModifiers s h))"
proof -
  have "partitioned (moveToSelected h (modifyItem h (setSelectionLeader True)
          ((clearSelection s)\<lparr>m_pSelectionLeader := Some h\<rparr>)))"
    using assms by (intro partitioned_select_front) (simp_all add: clearSelection_partitioned)
  then show ?thesis by (simp add: selectItemNoModifiers_def Let_def)
qed

lemma selectItemWithControl_partitioned:
  assumes "store_ok s" and "partitioned s" and "h \<in> set (m_itemsInOrder s)"
    and "selectItemWithControl s h = Inr (s', sigs)"
  shows "partitioned s'"
proof -
  from assms(1,3) have live: "m_items s h \<noteq> None" by (rule store_ok_live)
  show ?thesis
  proof (cases "isSelected s h")
    case False
    let ?s0 = "case m_pSelectionLeader s of
                 Some l \<Rightarrow> modifyItem l (setSelectionLeader False) s | None \<Rightarrow> s"
    let ?u = "moveToSelected h (modifyItem h (setSelectionLeader True)
                (?s0\<lparr>m_pSelectionLeader := Some h\<rparr>))"
    have f: "m_itemsInOrder ?s0 = m_itemsInOrder s" "store_ok ?s0" "partitioned ?s0"
      using assms(1,2) by (cases "m_pSelectionLeader s"; simp add: partitioned_unleader)+
    have "partitioned ?u" using f assms(3) by (intro partitioned_select_front) simp_all
    moreover have "s' = ?u" using assms(4) False by (simp add: selectItemWithControl_def Let_def)
    ultimately show ?thesis by simp
  next
    case True
    note sel = this
    show ?thesis
    proof (cases "multipleItemsSelected s")
      case False
      with sel assms(4) have "s' = s"
        by (auto simp: selectItemWithControl_def split: option.splits)
      with assms show ?thesis by simp
    next
      case True
      let ?s1 = "moveToUnselected h (modifyItem h (setSelected False) s)"
      have p1: "partitioned ?s1" using assms(1,2,3) by (rule partitioned_deselect_back)
      have sel1: "\<And>x. isSelected ?s1 x = (isSelected s x \<and> x \<noteq> h)" using live by auto
      show ?thesis
      proof (cases "m_pSelectionLeader s = Some h")
        case False
        with sel True assms(4) have "s' = ?s1"
          by (simp add: selectItemWithControl_def Let_def)
        with p1 show ?thesis by simp
      next
        case lead: True
        from multipleItemsSelected_other [OF assms(1) True, of h] obtain h' where
          h': "h' \<in> set (m_itemsInOrder s)" "h' \<noteq> h" "isSelected s h'" by blast
        from assms(1) have "distinct (m_itemsInOrder s)" by (simp add: store_ok_def)
        from pickLeader_returns [OF this assms(3) h'(1,2), of "isSelected ?s1"] h' sel1
        obtain m where m: "m < length (m_itemsInOrder s)"
          "pickLeader (isSelected ?s1) (m_itemsInOrder s)
             (index_of h (m_itemsInOrder s)) (index_of h (m_itemsInOrder s))
             = Some (m_itemsInOrder s ! m)"
          "isSelected ?s1 (m_itemsInOrder s ! m)"
          by auto
        let ?l = "m_itemsInOrder s ! m"
        let ?u = "modifyItem ?l (setSelectionLeader True) (?s1\<lparr>m_pSelectionLeader := Some ?l\<rparr>)"
        have "s' = ?u"
          using assms(4) sel True lead m(2) by (simp add: selectItemWithControl_def Let_def)
        moreover have "partitioned ?u"
          using p1 m(3) by (intro partitioned_releader) simp_all
        ultimately show ?thesis by simp
      qed
    qed
  qed
qed

subsection \<open>Shift-click keeps the partition\<close>

lemma findEndpoint_side:
  assumes "j \<noteq> i" and "j < n" and "d < orderDistance i j"
  shows "findEndpoint n j (i - d) (min (i + d) n) = Some (j < i)"
  using assms
proof (induction "orderDistance i j - d" arbitrary: d rule: less_induct)
  case less
  show ?case
  proof (cases "i - d \<noteq> 0 \<and> i - d - 1 = j")
    case True
    then have "j < i" by auto
    with True show ?thesis by (subst findEndpoint.simps) simp
  next
    case nb: False
    show ?thesis
    proof (cases "i + d + 1 = j")
      case True
      then have "\<not> j < i" "i + d < n" "i + d + 1 \<noteq> n" using less.prems(2) by auto
      with True nb show ?thesis
        by (subst findEndpoint.simps) (auto simp: min_def)
    next
      case nf: False
      have a: "(if i - d \<noteq> 0 then i - d - 1 else i - d) = i - (d + 1)" by auto
      have b: "(if min (i + d) n \<noteq> n then min (i + d) n + 1 else min (i + d) n)
                 = min (i + (d + 1)) n"
        by (auto simp: min_def)
      have c: "\<not> (min (i + d) n \<noteq> n \<and> min (i + d) n + 1 \<noteq> n \<and> min (i + d) n + 1 = j)"
        using nf by (auto simp: min_def)
      have step: "findEndpoint n j (i - d) (min (i + d) n)
                    = findEndpoint n j (i - (d + 1)) (min (i + (d + 1)) n)"
        by (subst findEndpoint.simps) (simp only: nb c a b if_False)
      have far: "d + 1 < orderDistance i j"
        using less.prems(3) nb nf by (auto simp: orderDistance_def split: if_splits)
      then have "orderDistance i j - (d + 1) < orderDistance i j - d" by simp
      from less.hyps [OF this less.prems(1,2) far] step show ?thesis by simp
    qed
  qed
qed

lemma nth_in_range:
  assumes "first \<le> k" and "k < final" and "final \<le> length xs"
  shows "xs ! k \<in> set (take (final - first) (drop first xs))"
proof -
  have "(take (final - first) (drop first xs)) ! (k - first) = xs ! k"
    using assms by simp
  moreover have "k - first < length (take (final - first) (drop first xs))"
    using assms by simp
  ultimately show ?thesis by (metis nth_mem)
qed

lemma selectRange_sel [simp]:
  "set (m_selectedThenUnselected (selectRange hs s)) = set (m_selectedThenUnselected s) \<union> set hs"
  by (induction hs arbitrary: s) auto

lemma selectRange_partitioned:
  "store_ok s \<Longrightarrow> partitioned s \<Longrightarrow> set hs \<subseteq> set (m_itemsInOrder s)
     \<Longrightarrow> partitioned (selectRange hs s)"
proof (induction hs arbitrary: s)
  case Nil
  then show ?case by simp
next
  case (Cons h hs)
  let ?s1 = "moveToSelected h (modifyItem h (setSelected True) s)"
  from Cons.prems have "store_ok ?s1" by (intro store_ok_moveToSelected) simp_all
  moreover from Cons.prems have "partitioned ?s1" by (intro partitioned_select_front) simp_all
  ultimately show ?case using Cons by simp
qed

lemma selectRange_keeps: "isSelected s x \<Longrightarrow> isSelected (selectRange hs s) x"
  by (induction hs arbitrary: s) auto

lemma selectRange_selects:
  "x \<in> set hs \<Longrightarrow> m_items s x \<noteq> None \<Longrightarrow> isSelected (selectRange hs s) x"
proof (induction hs arbitrary: s)
  case Nil
  then show ?case by simp
next
  case (Cons h hs)
  show ?case
  proof (cases "x = h")
    case True
    with Cons.prems have "isSelected (moveToSelected h (modifyItem h (setSelected True) s)) x"
      by simp
    then show ?thesis by (simp add: selectRange_keeps)
  next
    case False
    with Cons.prems have "x \<in> set hs" by simp
    moreover have "m_items (moveToSelected h (modifyItem h (setSelected True) s)) x \<noteq> None"
      using Cons.prems by simp
    ultimately have "isSelected (selectRange hs (moveToSelected h (modifyItem h (setSelected True) s))) x"
      by (rule Cons.IH)
    then show ?thesis by simp
  qed
qed

lemma selectItemWithShift_partitioned:
  assumes "store_ok s" and "leader_ok s" and "partitioned s" and "h \<in> set (m_itemsInOrder s)"
    and "selectItemWithShift s h = Inr (s', sigs)"
  shows "partitioned s'"
proof (cases "m_pSelectionLeader s")
  case None
  with assms(5) have "s' = fst (selectItemNoModifiers s h)"
    by (auto simp: selectItemWithShift_def)
  with selectItemNoModifiers_partitioned [OF assms(1,3,4)] show ?thesis by simp
next
  case (Some l)
  let ?xs = "m_itemsInOrder s"
  let ?e1 = "index_of l ?xs" and ?e2 = "index_of h ?xs"
  from assms(1,4) have live: "m_items s h \<noteq> None" by (rule store_ok_live)
  from Some assms(2) have l: "l \<in> set ?xs" by (simp add: leader_ok_def)
  have e1: "?e1 < length ?xs" using l by (rule index_of_less)
  have e2: "?e2 < length ?xs" "?xs ! ?e2 = h" using assms(4) by (simp_all add: index_of_less)
  show ?thesis
  proof (cases "?e1 = ?e2")
    case True
    with Some assms(5) have "s' = s" by (simp add: selectItemWithShift_def Let_def)
    with assms show ?thesis by simp
  next
    case False
    then have "0 < orderDistance ?e1 ?e2" by (auto simp: orderDistance_def)
    from findEndpoint_side [OF _ e2(1) this] False e1
    have fe: "findEndpoint (length ?xs) ?e2 ?e1 ?e1 = Some (?e2 < ?e1)"
      by (auto simp: min_def)
    define first where "first = (if ?e2 < ?e1 then ?e2 else ?e1)"
    define final where "final = (if ?e2 < ?e1 then ?e1 else ?e2) + 1"
    define hs where "hs = take (final - first) (drop first ?xs)"
    have s': "s' = modifyItem h (setSelectionLeader True)
                 ((modifyItem l (setSelectionLeader False) (selectRange hs s))
                    \<lparr>m_pSelectionLeader := Some h\<rparr>)"
      using assms(5) Some False fe
      by (simp add: selectItemWithShift_def Let_def first_def final_def hs_def)
    have sub: "set hs \<subseteq> set ?xs"
      unfolding hs_def by (auto dest: in_set_takeD in_set_dropD)
    have "first \<le> ?e2" "?e2 < final" "final \<le> length ?xs"
      using False e1 e2(1) by (auto simp: first_def final_def)
    then have "?xs ! ?e2 \<in> set hs" unfolding hs_def by (rule nth_in_range)
    with e2 have hin: "h \<in> set hs" by simp
    have p: "partitioned (selectRange hs s)" using assms(1,3) sub by (rule selectRange_partitioned)
    have hsel: "isSelected (selectRange hs s) h" using hin live by (rule selectRange_selects)
    have "partitioned ((modifyItem l (setSelectionLeader False) (selectRange hs s))
                    \<lparr>m_pSelectionLeader := Some h\<rparr>)"
      using p by (simp add: partitioned_unleader)
    then show ?thesis
      unfolding s' using hsel by (intro partitioned_releader) auto
  qed
qed

lemma itemSelectedByUser_partitioned:
  assumes "store_ok s" and "leader_ok s" and "partitioned s" and "h \<in> set (m_itemsInOrder s)"
    and "itemSelectedByUser s h modifiers = Inr (s', sigs)"
  shows "partitioned s'"
proof (cases "ControlModifier \<in> modifiers")
  case True
  with assms(5) have "selectItemWithControl s h = Inr (s', sigs)"
    by (simp add: itemSelectedByUser_def)
  with assms(1,3,4) show ?thesis by (rule selectItemWithControl_partitioned)
next
  case False
  note nc = this
  show ?thesis
  proof (cases "ShiftModifier \<in> modifiers")
    case True
    with nc assms(5) have "selectItemWithShift s h = Inr (s', sigs)"
      by (simp add: itemSelectedByUser_def)
    with assms(1,2,3,4) show ?thesis by (rule selectItemWithShift_partitioned)
  next
    case False
    with nc assms(5) have "s' = fst (selectItemNoModifiers s h)"
      by (auto simp: itemSelectedByUser_def)
    with selectItemNoModifiers_partitioned [OF assms(1,3,4)] show ?thesis by simp
  qed
qed

subsection \<open>The enumeration of the selection\<close>

lemma selectedItems_loop_takeWhile:
  "selectedItems_loop s xs = (\<lambda>h. pageId (deref s h)) ` set (takeWhile (isSelected s) xs)"
  by (induction xs) auto

lemma part_takeWhile: "part P xs \<Longrightarrow> set (takeWhile P xs) = {x \<in> set xs. P x}"
proof -
  assume "part P xs"
  then have "\<And>x. x \<in> set (dropWhile P xs) \<Longrightarrow> \<not> P x" by (simp add: part_def list_all_iff)
  moreover have "set xs = set (takeWhile P xs) \<union> set (dropWhile P xs)"
    by (metis set_append takeWhile_dropWhile_id)
  ultimately show ?thesis by (auto dest: set_takeWhileD)
qed

lemma selectedItems_partitioned:
  assumes "store_ok s" and "partitioned s"
  shows "selectedItems s = (\<lambda>h. pageId (deref s h)) ` {h \<in> set (m_itemsInOrder s). isSelected s h}"
proof -
  from assms(2) have "set (takeWhile (isSelected s) (m_selectedThenUnselected s))
                   = {x \<in> set (m_selectedThenUnselected s). isSelected s x}"
    by (simp add: partitioned_part part_takeWhile)
  with assms(1) show ?thesis
    by (simp add: selectedItems_def selectedItems_loop_takeWhile store_ok_def)
qed

subsection \<open>reset keeps the partition\<close>

lemma reset_step_part_inv:
  assumes "reset_part_inv acc"
    and "id' page_info = id' sl \<longrightarrow> id' page_info \<in> selected"
  shows "reset_part_inv (reset_step vis selected sl page_info i acc)"
proof (cases acc)
  case (fields s some off)
  define c where "c = setPos (0, off) (getCompositeItem vis page_info (int i))"
  define s2 where "s2 = push_back (Item_new page_info (int i) c)
                (s\<lparr>m_sceneRect := updateSceneRect c (m_sceneRect s)\<rparr>)"
  define item where "item = last (m_itemsInOrder s2)"
  define s3 where "s3 = (if id' page_info \<in> selected
               then moveToSelected item (modifyItem item (setSelected True) s2) else s2)"
  note eq = reset_step_unfold [OF c_def s2_def item_def s3_def, of sl some]
  from assms(1) fields have ok: "store_ok s" and p: "partitioned s"
    and l: "\<And>h. m_pSelectionLeader s = Some h \<Longrightarrow> h \<in> set (m_itemsInOrder s) \<and> isSelected s h"
    and sm: "\<And>h. some = Some h \<Longrightarrow> h \<in> set (m_itemsInOrder s) \<and> isSelected s h"
    by (auto simp: reset_part_inv_def)
  have ok2: "store_ok s2" unfolding s2_def push_back_def
    using ok by (intro store_ok_insertAt) simp
  have p2: "partitioned s2" unfolding s2_def push_back_def
    using ok p by (intro partitioned_insertAt) (simp_all add: Item_new_def)
  have mono: "set (m_itemsInOrder s) \<subseteq> set (m_itemsInOrder s2)"
    unfolding s2_def push_back_def
    using insertAt_mono [of "s\<lparr>m_sceneRect := updateSceneRect c (m_sceneRect s)\<rparr>"] by simp
  have old: "\<And>x. x \<in> set (m_itemsInOrder s) \<Longrightarrow> isSelected s2 x = isSelected s x"
    unfolding s2_def push_back_def
    using insertAt_old [of _ "s\<lparr>m_sceneRect := updateSceneRect c (m_sceneRect s)\<rparr>"] by simp
  have lead2: "m_pSelectionLeader s2 = m_pSelectionLeader s"
    by (simp add: s2_def push_back_def)
  have item: "item \<in> set (m_itemsInOrder s2)"
    unfolding item_def s2_def by (rule last_in_set) (rule push_back_nonempty)
  from ok2 item have live: "m_items s2 item \<noteq> None" by (rule store_ok_live)
  have ok3: "store_ok s3" and ord3: "m_itemsInOrder s3 = m_itemsInOrder s2"
    and lead3: "m_pSelectionLeader s3 = m_pSelectionLeader s2"
    using ok2 item by (auto simp: s3_def intro: store_ok_moveToSelected)
  have p3: "partitioned s3"
    using ok2 p2 item by (auto simp: s3_def intro: partitioned_select_front)
  have keep3: "\<And>x. isSelected s2 x \<Longrightarrow> isSelected s3 x" by (auto simp: s3_def)
  have sel3: "id' page_info \<in> selected \<Longrightarrow> isSelected s3 item"
    using live by (simp add: s3_def)
  have old3: "\<And>x. x \<in> set (m_itemsInOrder s) \<Longrightarrow> isSelected s x
                \<Longrightarrow> x \<in> set (m_itemsInOrder s3) \<and> isSelected s3 x"
    using mono old keep3 ord3 by auto
  show ?thesis
    unfolding fields eq reset_part_inv_def
    using ok3 p3 ord3 lead3 lead2 item sel3 old3 l sm assms(2) by auto
qed

lemma reset_loop_part_inv:
  "reset_part_inv acc \<Longrightarrow> (\<And>p. p \<in> set pages \<Longrightarrow> id' p = id' sl \<longrightarrow> id' p \<in> selected)
     \<Longrightarrow> reset_part_inv (reset_loop vis selected sl pages i acc)"
proof (induction pages arbitrary: i acc)
  case Nil
  then show ?case by simp
next
  case (Cons a pages)
  have "reset_part_inv (reset_step vis selected sl a i acc)"
    using Cons.prems(1) by (rule reset_step_part_inv) (rule Cons.prems(2), simp)
  then have "reset_part_inv (reset_loop vis selected sl pages (Suc i)
                               (reset_step vis selected sl a i acc))"
    by (rule Cons.IH) (rule Cons.prems(2), simp)
  then show ?case by simp
qed

lemma reset_leader_partitioned:
  assumes "reset_part_inv (s, some, off)"
  shows "partitioned (case m_pSelectionLeader (reset_leader pages some (commitSceneRect s)) of
           Some l \<Rightarrow> modifyItem l (setSelectionLeader True)
                       (reset_leader pages some (commitSceneRect s))
         | None \<Rightarrow> reset_leader pages some (commitSceneRect s))"
proof -
  let ?c = "commitSceneRect s"
  from assms have ok: "store_ok ?c" and p: "partitioned ?c"
    and l: "\<And>h. m_pSelectionLeader s = Some h \<Longrightarrow> isSelected s h"
    and sm: "\<And>h. some = Some h \<Longrightarrow> isSelected s h"
    by (auto simp: reset_part_inv_def)
  show ?thesis
  proof (cases "m_pSelectionLeader s")
    case (Some x)
    with l [OF Some] p show ?thesis
      by (simp add: reset_leader_def partitioned_releader)
  next
    case None
    note nl = this
    show ?thesis
    proof (cases some)
      case (Some h)
      have "partitioned (modifyItem h (setSelectionLeader True) (?c\<lparr>m_pSelectionLeader := Some h\<rparr>))"
        using p sm [OF Some] by (intro partitioned_releader) simp_all
      with nl Some show ?thesis by (simp add: reset_leader_def)
    next
      case ns: None
      show ?thesis
      proof (cases "findById ?c (id' (curPage pages))")
        case None
        with nl ns p show ?thesis by (simp add: reset_leader_def)
      next
        case (Some h)
        then have "h \<in> set (m_itemsInOrder ?c)" by (rule findById_mem)
        then have "partitioned (modifyItem h (setSelectionLeader True)
                (moveToSelected h (?c\<lparr>m_pSelectionLeader := Some h\<rparr>)))"
          using ok p by (intro partitioned_select_front) simp_all
        with nl ns Some show ?thesis by (simp add: reset_leader_def)
      qed
    qed
  qed
qed

lemma PageInfo_null_id:
  "\<not> PageInfo_isNull p \<Longrightarrow> id' p \<noteq> id' PageInfo_null"
  by (auto simp: PageInfo_isNull_def ImageId_isNull_def PageInfo_null_def)

lemma reset_partitioned:
  assumes "store_ok s" and "leader_ok s" and "partitioned s"
    and "list_all (\<lambda>p. \<not> PageInfo_isNull p) (snapshotPages pages)"
  shows "partitioned (fst (reset s vis pages selection_action order_provider))"
proof -
  define s0 where "s0 = s\<lparr>m_ptrOrderProvider := order_provider\<rparr>"
  define selected where
    "selected = (if selection_action = KEEP_SELECTION then selectedItems s0 else {})"
  define sl where "sl =
            (if selection_action = KEEP_SELECTION
             then (case m_pSelectionLeader s0 of
                     Some l \<Rightarrow> pageInfo (deref s0 l)
                   | None \<Rightarrow> PageInfo_null)
             else PageInfo_null)"
  define sorted_pages where "sorted_pages =
                 (case m_ptrOrderProvider (clear s0) of
                    Some prec \<Rightarrow> stable_sort (comparator prec) (snapshotPages pages)
                  | None \<Rightarrow> snapshotPages pages)"
  define looped where "looped = reset_loop vis selected sl sorted_pages 0 (clear s0, None, 0)"
  define t where "t = reset_leader pages (fst (snd looped)) (commitSceneRect (fst looped))"
  have r: "fst (reset s vis pages selection_action order_provider) =
      (if length (snapshotPages pages) = 0 then clear s0
       else (case m_pSelectionLeader t of
                 Some l \<Rightarrow> modifyItem l (setSelectionLeader True) t
               | None \<Rightarrow> t))"
    unfolding reset_def Let_def s0_def selected_def sl_def sorted_pages_def looped_def t_def
    by (simp split: option.splits)
  have pc: "partitioned (clear s0)" by (simp add: partitioned_def)
  have same0: "sameSelection s s0" unfolding s0_def by (intro sameSelection_update sameSelection_refl)
  have sel0: "selectedItems s0 = selectedItems s"
  proof -
    have "isSelected s0 = isSelected s" by (rule ext) (simp add: isSelected_def s0_def)
    then show ?thesis
      by (simp add: selectedItems_def selectedItems_loop_takeWhile deref_def) (simp add: s0_def)
  qed
  have pages: "set sorted_pages = set (snapshotPages pages)"
    unfolding sorted_pages_def
    by (simp add: mset_eq_setD [OF mset_stable_sort] split: option.splits)
  have cond: "\<And>p. p \<in> set sorted_pages \<Longrightarrow> id' p = id' sl \<longrightarrow> id' p \<in> selected"
  proof
    fix p assume p: "p \<in> set sorted_pages" and eq: "id' p = id' sl"
    from p pages assms(4) have "id' p \<noteq> id' PageInfo_null"
      by (intro PageInfo_null_id) (simp add: list_all_iff)
    with eq have keep: "selection_action = KEEP_SELECTION" and "m_pSelectionLeader s0 \<noteq> None"
      by (auto simp: sl_def split: if_splits option.splits)
    then obtain l where l: "m_pSelectionLeader s = Some l" by (auto simp: s0_def)
    with assms(2) have lin: "l \<in> set (m_itemsInOrder s)" "isSelected s l"
      by (auto simp: leader_ok_def)
    from l keep have "id' sl = pageId (deref s l)"
      by (simp add: sl_def s0_def pageId_def)
    moreover have "pageId (deref s l) \<in> selectedItems s"
      unfolding selectedItems_partitioned [OF assms(1,3)] using lin by auto
    ultimately show "id' p \<in> selected" using eq keep sel0 by (simp add: selected_def)
  qed
  have "reset_part_inv (clear s0, None, 0)" using pc by (simp add: reset_part_inv_def)
  then have "reset_part_inv looped" unfolding looped_def using cond by (rule reset_loop_part_inv)
  then have "reset_part_inv (fst looped, fst (snd looped), snd (snd looped))" by simp
  from reset_leader_partitioned [OF this, of pages] pc show ?thesis
    unfolding r t_def by simp
qed

lemma reachable_nonnull_reachable: "reachable_nonnull s \<Longrightarrow> reachable s"
  by (induction rule: reachable_nonnull.induct) (auto intro: reachable.intros)

lemma reachable_nonnull_partitioned: "reachable_nonnull s \<Longrightarrow> partitioned s"
proof (induction rule: reachable_nonnull.induct)
  case nn_init
  show ?case by (simp add: Impl_init_def partitioned_def)
next
  case (nn_reset s pages vis selection_action order_provider)
  from nn_reset(1) have "store_ok s \<and> leader_ok s"
    by (intro reachable_invariants reachable_nonnull_reachable)
  with nn_reset show ?case by (simp add: reset_partitioned)
next
  case (nn_insert s vis new_page before_or_after img)
  from nn_insert(1) have "store_ok s \<and> leader_ok s"
    by (intro reachable_invariants reachable_nonnull_reachable)
  with nn_insert show ?case by (simp add: insert_partitioned)
next
  case (nn_removePages s to_remove s' sigs)
  from nn_removePages(1) have "store_ok s \<and> leader_ok s"
    by (intro reachable_invariants reachable_nonnull_reachable)
  with nn_removePages show ?case using removePages_partitioned by blast
next
  case (nn_invalidateThumbnail s vis page_id)
  then show ?case by (simp add: sameSelection_partitioned [OF sameSelection_invalidateThumbnail])
next
  case (nn_invalidateAllThumbnails s vis)
  then show ?case by (simp add: sameSelection_partitioned [OF sameSelection_invalidateAllThumbnails])
next
  case (nn_setSelection s page_id)
  from nn_setSelection(1) have "store_ok s \<and> leader_ok s"
    by (intro reachable_invariants reachable_nonnull_reachable)
  with nn_setSelection show ?case by (simp add: setSelection_partitioned)
next
  case (nn_click s h modifiers s' sigs)
  from nn_click(1) have "store_ok s \<and> leader_ok s"
    by (intro reachable_invariants reachable_nonnull_reachable)
  with nn_click show ?case using itemSelectedByUser_partitioned by blast
qed

subsection \<open>The partition of the selection index\<close>

lemma part_nth:
  assumes "part P xs" and "i < j" and "j < length xs" and "P (xs ! j)"
  shows "P (xs ! i)"
proof (rule ccontr)
  assume n: "\<not> P (xs ! i)"
  let ?n = "length (takeWhile P xs)"
  have "?n \<le> i"
  proof (rule ccontr)
    assume "\<not> ?n \<le> i"
    then have "i < ?n" by simp
    then have "takeWhile P xs ! i \<in> set (takeWhile P xs)" by (rule nth_mem)
    moreover from \<open>i < ?n\<close> have "takeWhile P xs ! i = xs ! i" by (rule takeWhile_nth)
    ultimately show False using n by (auto dest: set_takeWhileD)
  qed
  with assms(2) have le: "?n \<le> j" by simp
  have "length (dropWhile P xs) = length xs - ?n"
    by (metis add_diff_cancel_left' length_append takeWhile_dropWhile_id)
  with le assms(3) have lt: "j - ?n < length (dropWhile P xs)" by simp
  then have "dropWhile P xs ! (j - ?n) = xs ! (j - ?n + ?n)" by (rule dropWhile_nth)
  with le have "dropWhile P xs ! (j - ?n) = xs ! j" by simp
  with lt have "xs ! j \<in> set (dropWhile P xs)" by (metis nth_mem)
  with assms(1) have "\<not> P (xs ! j)" by (simp add: part_def list_all_iff)
  with assms(4) show False by simp
qed

lemma ex_state_nonnull: "reachable_nonnull ex_state"
proof -
  have "list_all (\<lambda>p. \<not> PageInfo_isNull p) (snapshotPages ex_snapshot)" by code_simp
  with nn_init show ?thesis unfolding ex_state_def by (rule nn_reset)
qed

lemma ex_two_nonnull: "reachable_nonnull ex_two"
proof -
  have "\<not> isl (selectItemWithControl ex_state 2)" by code_simp
  then obtain s sigs where r: "selectItemWithControl ex_state 2 = Inr (s, sigs)"
    by (cases "selectItemWithControl ex_state 2") auto
  then have two: "ex_two = s" by (simp add: ex_two_def)
  have live: "2 \<in> set (m_itemsInOrder ex_state)" by code_simp
  from r have "itemSelectedByUser ex_state 2 {ControlModifier} = Inr (s, sigs)"
    by (simp add: itemSelectedByUser_def)
  from nn_click [OF ex_state_nonnull live this] two show ?thesis by simp
qed

text \<open>
  Claim C7.  In every state reached from the empty container through the operations,
  with snapshots whose pages all have an image, the selected-then-unselected index is
  partitioned: no item that is not selected stands before a selected one, and the scan
  of \<^verbatim>\<open>selectedItems\<close> from the front to the first unselected item yields exactly the
  identities of the selected items.
\<close>

theorem selection_index_partitioned:
  assumes "reachable_nonnull s"
  shows "partitioned s
       \<and> (\<forall>i j. i < j \<and> j < length (m_selectedThenUnselected s)
                 \<and> isSelected s (m_selectedThenUnselected s ! j)
               \<longrightarrow> isSelected s (m_selectedThenUnselected s ! i))
       \<and> selectedItems s =
           (\<lambda>h. pageId (deref s h)) ` {h \<in> set (m_itemsInOrder s). isSelected s h}"
proof -
  from assms have p: "partitioned s" by (rule reachable_nonnull_partitioned)
  from assms have "reachable s" by (rule reachable_nonnull_reachable)
  then have ok: "store_ok s" using reachable_invariants by blast
  from p have "part (isSelected s) (m_selectedThenUnselected s)" by (simp add: partitioned_part)
  then have "\<forall>i j. i < j \<and> j < length (m_selectedThenUnselected s)
                 \<and> isSelected s (m_selectedThenUnselected s ! j)
               \<longrightarrow> isSelected s (m_selectedThenUnselected s ! i)"
    by (blast intro: part_nth)
  with p selectedItems_partitioned [OF ok p] show ?thesis by simp
qed

theorem selection_index_partitioned_witness:
  "reachable_nonnull ex_two
   \<and> m_selectedThenUnselected ex_two = [2, 1, 3, 4]
   \<and> map (isSelected ex_two) [2, 1, 3, 4] = [True, True, False, False]
   \<and> partitioned ex_two
   \<and> selectedItems ex_two =
       (\<lambda>h. pageId (deref ex_two h)) ` {h \<in> set (m_itemsInOrder ex_two). isSelected ex_two h}"
proof -
  have a: "m_selectedThenUnselected ex_two = [2, 1, 3, 4]" by code_simp
  have b: "map (isSelected ex_two) [2, 1, 3, 4] = [True, True, False, False]" by code_simp
  from selection_index_partitioned [OF ex_two_nonnull] ex_two_nonnull a b show ?thesis by blast
qed

text \<open>
  The premise on the pages of a snapshot stands for a reason.  A default \<^verbatim>\<open>PageInfo()\<close>
  is what \<^verbatim>\<open>reset\<close> itself uses for ``no leader'': it compares every page with
  \<^verbatim>\<open>selection_leader.id()\<close> and makes the matching item the leader without
  \<^verbatim>\<open>moveToSelected\<close>.  A snapshot that held such a page, which no page sequence of a
  project does, would leave the item selected behind an unselected one.
\<close>

lemma reset_null_page_not_partitioned:
  "m_selectedThenUnselected (fst (reset Impl_init ex_vis ex_null_snapshot RESET_SELECTION None)) = [1, 2]
   \<and> \<not> isSelected (fst (reset Impl_init ex_vis ex_null_snapshot RESET_SELECTION None)) 1
   \<and> isSelected (fst (reset Impl_init ex_vis ex_null_snapshot RESET_SELECTION None)) 2
   \<and> m_pSelectionLeader (fst (reset Impl_init ex_vis ex_null_snapshot RESET_SELECTION None)) = Some 2
   \<and> \<not> partitioned (fst (reset Impl_init ex_vis ex_null_snapshot RESET_SELECTION None))
   \<and> selectedItems (fst (reset Impl_init ex_vis ex_null_snapshot RESET_SELECTION None)) = {}"
  by code_simp

subsection \<open>reset with KEEP_SELECTION\<close>

lemma findById_None:
  "findById s k = None \<longleftrightarrow> (\<forall>h \<in> set (m_itemsInOrder s). pageId (deref s h) \<noteq> k)"
  by (auto simp: findById_def find_None_iff)

lemma push_back_fresh:
  assumes "findById s (pageId it) = None"
  shows "push_back it s =
           s\<lparr>m_items := (m_items s)(freshHandle s \<mapsto> it),
             m_itemsInOrder := m_itemsInOrder s @ [freshHandle s],
             m_selectedThenUnselected := m_selectedThenUnselected s @ [freshHandle s]\<rparr>"
  using assms by (simp add: push_back_def insertAt_def Let_def)

lemma reset_step_sel_inv:
  assumes "reset_part_inv acc" and "reset_sel_inv selected D acc" and "id' page_info \<notin> D"
  shows "reset_sel_inv selected (insert (id' page_info) D)
           (reset_step vis selected sl page_info i acc)"
proof (cases acc)
  case (fields s some off)
  define c where "c = setPos (0, off) (getCompositeItem vis page_info (int i))"
  define s1 where "s1 = s\<lparr>m_sceneRect := updateSceneRect c (m_sceneRect s)\<rparr>"
  define s2 where "s2 = push_back (Item_new page_info (int i) c)
                (s\<lparr>m_sceneRect := updateSceneRect c (m_sceneRect s)\<rparr>)"
  define item where "item = last (m_itemsInOrder s2)"
  define s3 where "s3 = (if id' page_info \<in> selected
               then moveToSelected item (modifyItem item (setSelected True) s2) else s2)"
  note eq = reset_step_unfold [OF c_def s2_def item_def s3_def, of sl some]
  define g where "g = freshHandle s1"
  from assms(1) fields have ok: "store_ok s" by (simp add: reset_part_inv_def)
  from assms(2) fields have D: "(\<lambda>h. pageId (deref s h)) ` set (m_itemsInOrder s) = D"
    and sel: "\<And>h. h \<in> set (m_itemsInOrder s) \<Longrightarrow> isSelected s h = (pageId (deref s h) \<in> selected)"
    and sm: "some = None \<Longrightarrow> selected \<inter> D = {}"
    by (auto simp: reset_sel_inv_def)
  have ord1: "m_itemsInOrder s1 = m_itemsInOrder s" and d1: "\<And>h. deref s1 h = deref s h"
    by (simp_all add: s1_def deref_def)
  have "findById s1 (pageId (Item_new page_info (int i) c)) = None"
  proof -
    have "\<And>h. h \<in> set (m_itemsInOrder s) \<Longrightarrow> pageId (deref s h) \<noteq> id' page_info"
      using D assms(3) by (metis imageI)
    then show ?thesis
      unfolding findById_None by (simp add: ord1 d1) (simp add: pageId_def Item_new_def)
  qed
  then have s2: "s2 = s1\<lparr>m_items := (m_items s1)(g \<mapsto> Item_new page_info (int i) c),
             m_itemsInOrder := m_itemsInOrder s1 @ [g],
             m_selectedThenUnselected := m_selectedThenUnselected s1 @ [g]\<rparr>"
    unfolding s2_def g_def s1_def [symmetric] by (rule push_back_fresh)
  have gn: "g \<notin> set (m_itemsInOrder s)"
    using freshHandle_notin [of s1] by (simp add: g_def ord1)
  have ord2: "m_itemsInOrder s2 = m_itemsInOrder s @ [g]" by (simp add: s2 ord1)
  have item: "item = g" by (simp add: item_def ord2)
  have live: "m_items s2 g \<noteq> None" by (simp add: s2)
  have ord3: "m_itemsInOrder s3 = m_itemsInOrder s @ [g]" by (simp add: s3_def ord2)
  have id_old: "\<And>h. h \<in> set (m_itemsInOrder s) \<Longrightarrow> pageId (deref s3 h) = pageId (deref s h)"
    using gn by (auto simp: s3_def item s2 s1_def deref_def modifyItem_def)
  have id_new: "pageId (deref s3 g) = id' page_info"
    by (auto simp: s3_def item s2 deref_def modifyItem_def pageId_def Item_new_def)
  have sel_old: "\<And>h. h \<in> set (m_itemsInOrder s) \<Longrightarrow> isSelected s3 h = isSelected s h"
    using gn by (auto simp: s3_def item s2 s1_def isSelected_def modifyItem_def)
  have sel_new: "isSelected s3 g = (id' page_info \<in> selected)"
    by (auto simp: s3_def item s2 isSelected_def modifyItem_def Item_new_def setSelected_def)
  have ids: "(\<lambda>h. pageId (deref s3 h)) ` set (m_itemsInOrder s3) = insert (id' page_info) D"
    using D id_old id_new by (auto simp: ord3 image_iff)
  have flags: "\<forall>h \<in> set (m_itemsInOrder s3). isSelected s3 h = (pageId (deref s3 h) \<in> selected)"
    using sel sel_old sel_new id_old id_new by (auto simp: ord3)
  have none: "(if id' page_info \<in> selected then Some item else some) = None
                \<longrightarrow> selected \<inter> insert (id' page_info) D = {}"
    using sm by auto
  have lead_irrelevant:
    "\<And>l. (\<lambda>h. pageId (deref (s3\<lparr>m_pSelectionLeader := l\<rparr>) h)) = (\<lambda>h. pageId (deref s3 h))"
    "\<And>l. isSelected (s3\<lparr>m_pSelectionLeader := l\<rparr>) = isSelected s3"
    by (auto simp: deref_def isSelected_def)
  show ?thesis
    unfolding fields eq reset_sel_inv_def
    using ids flags none by (simp add: lead_irrelevant)
qed

lemma reset_loop_sel_inv:
  assumes "reset_part_inv acc" and "reset_sel_inv selected D acc"
    and "distinct (map id' ps)" and "id' ` set ps \<inter> D = {}"
    and "\<And>p. p \<in> set ps \<Longrightarrow> id' p = id' sl \<longrightarrow> id' p \<in> selected"
  shows "reset_sel_inv selected (D \<union> id' ` set ps) (reset_loop vis selected sl ps i acc)"
  using assms
proof (induction ps arbitrary: i acc D)
  case Nil
  then show ?case by simp
next
  case (Cons a ps)
  have a: "id' a \<notin> D" using Cons.prems(4) by auto
  have c: "id' a = id' sl \<longrightarrow> id' a \<in> selected" by (rule Cons.prems(5)) simp
  have p1: "reset_part_inv (reset_step vis selected sl a i acc)"
    using Cons.prems(1) c by (rule reset_step_part_inv)
  have s1: "reset_sel_inv selected (insert (id' a) D) (reset_step vis selected sl a i acc)"
    using Cons.prems(1,2) a by (rule reset_step_sel_inv)
  have d: "distinct (map id' ps)" and dj: "id' ` set ps \<inter> insert (id' a) D = {}"
    using Cons.prems(3,4) by auto
  have "reset_sel_inv selected (insert (id' a) D \<union> id' ` set ps)
          (reset_loop vis selected sl ps (Suc i) (reset_step vis selected sl a i acc))"
    using p1 s1 d dj by (rule Cons.IH) (rule Cons.prems(5), simp)
  then show ?case by simp
qed
lemma reset_leader_selected:
  assumes "reset_part_inv (s, some, off)" and "reset_sel_inv selected D (s, some, off)"
    and "u = (case m_pSelectionLeader (reset_leader pages some (commitSceneRect s)) of
           Some l \<Rightarrow> modifyItem l (setSelectionLeader True)
                       (reset_leader pages some (commitSceneRect s))
         | None \<Rightarrow> reset_leader pages some (commitSceneRect s))"
  shows "(\<lambda>h. pageId (deref u h)) ` {h \<in> set (m_itemsInOrder u). isSelected u h} =
           (if selected \<inter> D \<noteq> {} then selected \<inter> D
            else if id' (curPage pages) \<in> D then {id' (curPage pages)} else {})"
proof -
  let ?c = "commitSceneRect s"
  let ?ids = "\<lambda>t. (\<lambda>h. pageId (deref t h)) ` {h \<in> set (m_itemsInOrder t). isSelected t h}"
  from assms(1) have ok: "store_ok s"
    and l: "\<And>h. m_pSelectionLeader s = Some h \<Longrightarrow> h \<in> set (m_itemsInOrder s) \<and> isSelected s h"
    and sm: "\<And>h. some = Some h \<Longrightarrow> h \<in> set (m_itemsInOrder s) \<and> isSelected s h"
    by (auto simp: reset_part_inv_def)
  from assms(2) have D: "(\<lambda>h. pageId (deref s h)) ` set (m_itemsInOrder s) = D"
    and sel: "\<And>h. h \<in> set (m_itemsInOrder s) \<Longrightarrow> isSelected s h = (pageId (deref s h) \<in> selected)"
    and none: "some = None \<Longrightarrow> selected \<inter> D = {}"
    by (auto simp: reset_sel_inv_def)
  have base: "?ids s = selected \<inter> D"
    using D sel by auto
  have relead: "?ids (modifyItem h (setSelectionLeader True) T) = ?ids s"
    if "isSelected s h" and "m_itemsInOrder T = m_itemsInOrder s"
      and "\<And>y. isSelected T y = isSelected s y" and "\<And>y. deref T y = deref s y" for h T
  proof -
    have "\<And>y. isSelected (modifyItem h (setSelectionLeader True) T) y = isSelected s y"
      using that(1,3) by auto
    moreover have "\<And>y. pageId (deref (modifyItem h (setSelectionLeader True) T) y)
                       = pageId (deref s y)"
    proof -
      fix y
      have "pageId (deref (modifyItem h (setSelectionLeader True) T) y) = pageId (deref T y)"
        by (rule deref_modifyItem_proj) (simp add: pageId_def)
      then show "pageId (deref (modifyItem h (setSelectionLeader True) T) y) = pageId (deref s y)"
        by (simp add: that(4))
    qed
    ultimately show ?thesis by (simp add: that(2))
  qed
  show ?thesis
  proof (cases "m_pSelectionLeader s")
    case (Some h)
    then have u: "u = modifyItem h (setSelectionLeader True) ?c"
      by (simp add: assms(3) reset_leader_def)
    from l [OF Some] have hs: "isSelected s h" and hin: "h \<in> set (m_itemsInOrder s)" by simp_all
    with sel D have "pageId (deref s h) \<in> selected \<inter> D" by auto
    then have "selected \<inter> D \<noteq> {}" by auto
    moreover have "?ids u = ?ids s" unfolding u using hs by (rule relead) simp_all
    ultimately show ?thesis using base by simp
  next
    case None
    note nl = this
    show ?thesis
    proof (cases some)
      case (Some h)
      with nl have u: "u = modifyItem h (setSelectionLeader True) (?c\<lparr>m_pSelectionLeader := Some h\<rparr>)"
        by (simp add: assms(3) reset_leader_def)
      from sm [OF Some] have hs: "isSelected s h" and hin: "h \<in> set (m_itemsInOrder s)" by simp_all
      with sel D have "pageId (deref s h) \<in> selected \<inter> D" by auto
      then have "selected \<inter> D \<noteq> {}" by auto
      moreover have "?ids u = ?ids s" unfolding u using hs by (rule relead) simp_all
      ultimately show ?thesis using base by simp
    next
      case ns: None
      from none [OF ns] have e: "selected \<inter> D = {}" .
      with base have nosel: "\<And>h. h \<in> set (m_itemsInOrder s) \<Longrightarrow> \<not> isSelected s h" by auto
      have fc: "findById ?c (id' (curPage pages)) = findById s (id' (curPage pages))"
        by (simp add: findById_def itemsById_def)
      show ?thesis
      proof (cases "findById s (id' (curPage pages))")
        case None
        with nl ns fc have u: "u = ?c" by (simp add: assms(3) reset_leader_def)
        from None D have "id' (curPage pages) \<notin> D" unfolding findById_None by auto
        with e nosel show ?thesis by (auto simp: u)
      next
        case (Some h)
        with nl ns fc have u: "u = modifyItem h (setSelectionLeader True)
                (moveToSelected h (?c\<lparr>m_pSelectionLeader := Some h\<rparr>))"
          by (simp add: assms(3) reset_leader_def)
        from Some have hin: "h \<in> set (m_itemsInOrder s)" and hid: "pageId (deref s h) = id' (curPage pages)"
          by (rule findById_mem, rule findById_id)
        from ok hin have live: "m_items s h \<noteq> None" by (rule store_ok_live)
        have f: "\<And>y. y \<in> set (m_itemsInOrder s) \<Longrightarrow> isSelected u y = (y = h)"
          using nosel live by (auto simp: u isSelected_def modifyItem_def setSelectionLeader_def)
        have g: "\<And>y. pageId (deref u y) = pageId (deref s y)"
        proof -
          fix y
          have "pageId (deref u y)
              = pageId (deref (moveToSelected h (?c\<lparr>m_pSelectionLeader := Some h\<rparr>)) y)"
            unfolding u by (rule deref_modifyItem_proj) (simp add: pageId_def)
          then show "pageId (deref u y) = pageId (deref s y)" by simp
        qed
        have o: "m_itemsInOrder u = m_itemsInOrder s" by (simp add: u)
        have "{y \<in> set (m_itemsInOrder u). isSelected u y} = {h}" using f hin by (auto simp: o)
        then have "?ids u = {id' (curPage pages)}" by (simp add: g hid)
        moreover have "id' (curPage pages) \<in> D" using D hin hid by (metis imageI)
        ultimately show ?thesis using e by simp
      qed
    qed
  qed
qed
lemma reset_keep_selectedItems:
  assumes "store_ok s" and "leader_ok s" and "partitioned s"
    and "distinct (map id' (snapshotPages pages))"
    and "list_all (\<lambda>p. \<not> PageInfo_isNull p) (snapshotPages pages)"
  shows "selectedItems (fst (reset s vis pages KEEP_SELECTION order_provider)) =
           (if selectedItems s \<inter> id' ` set (snapshotPages pages) \<noteq> {}
            then selectedItems s \<inter> id' ` set (snapshotPages pages)
            else if id' (curPage pages) \<in> id' ` set (snapshotPages pages)
                 then {id' (curPage pages)} else {})"
proof -
  define s0 where "s0 = s\<lparr>m_ptrOrderProvider := order_provider\<rparr>"
  define selected where "selected = selectedItems s0"
  define sl where "sl =
            (case m_pSelectionLeader s0 of
                     Some l \<Rightarrow> pageInfo (deref s0 l)
                   | None \<Rightarrow> PageInfo_null)"
  define sorted_pages where "sorted_pages =
                 (case m_ptrOrderProvider (clear s0) of
                    Some prec \<Rightarrow> stable_sort (comparator prec) (snapshotPages pages)
                  | None \<Rightarrow> snapshotPages pages)"
  define looped where "looped = reset_loop vis selected sl sorted_pages 0 (clear s0, None, 0)"
  define t where "t = reset_leader pages (fst (snd looped)) (commitSceneRect (fst looped))"
  define u where "u = fst (reset s vis pages KEEP_SELECTION order_provider)"
  have r: "u =
      (if length (snapshotPages pages) = 0 then clear s0
       else (case m_pSelectionLeader t of
                 Some l \<Rightarrow> modifyItem l (setSelectionLeader True) t
               | None \<Rightarrow> t))"
    unfolding u_def reset_def Let_def s0_def selected_def sl_def sorted_pages_def looped_def t_def
    by (simp split: option.splits)
  have sel0: "selected = selectedItems s"
  proof -
    have "isSelected s0 = isSelected s" by (rule ext) (simp add: isSelected_def s0_def)
    then show ?thesis
      unfolding selected_def
      by (simp add: selectedItems_def selectedItems_loop_takeWhile deref_def) (simp add: s0_def)
  qed
  have ok_u: "store_ok u" and p_u: "partitioned u"
    unfolding u_def using reset_invariants [of s vis pages KEEP_SELECTION order_provider]
      reset_partitioned [OF assms(1,2,3,5), of vis KEEP_SELECTION order_provider] by simp_all
  show ?thesis
  proof (cases "snapshotPages pages = []")
    case True
    then have "u = clear s0" by (simp add: r)
    then have "selectedItems u = {}" by (simp add: selectedItems_def)
    with True show ?thesis by (simp add: u_def)
  next
    case False
    have ms: "mset sorted_pages = mset (snapshotPages pages)"
      unfolding sorted_pages_def by (simp split: option.splits)
    then have pages: "set sorted_pages = set (snapshotPages pages)" by (rule mset_eq_setD)
    from ms have "mset (map id' sorted_pages) = mset (map id' (snapshotPages pages))" by simp
    then have "distinct (map id' sorted_pages) = distinct (map id' (snapshotPages pages))"
      by (rule mset_eq_imp_distinct_iff)
    with assms(4) have dist: "distinct (map id' sorted_pages)" by simp
    have cond: "\<And>p. p \<in> set sorted_pages \<Longrightarrow> id' p = id' sl \<longrightarrow> id' p \<in> selected"
    proof
      fix p assume p: "p \<in> set sorted_pages" and eq: "id' p = id' sl"
      from p pages assms(5) have "id' p \<noteq> id' PageInfo_null"
        by (intro PageInfo_null_id) (simp add: list_all_iff)
      with eq have "m_pSelectionLeader s0 \<noteq> None"
        by (auto simp: sl_def split: option.splits)
      then obtain l where l: "m_pSelectionLeader s = Some l" by (auto simp: s0_def)
      with assms(2) have lin: "l \<in> set (m_itemsInOrder s)" "isSelected s l"
        by (auto simp: leader_ok_def)
      from l have "id' sl = pageId (deref s l)"
        by (simp add: sl_def s0_def pageId_def deref_def)
      moreover have "pageId (deref s l) \<in> selectedItems s"
        unfolding selectedItems_partitioned [OF assms(1,3)] using lin by auto
      ultimately show "id' p \<in> selected" using eq sel0 by simp
    qed
    have pc: "partitioned (clear s0)" by (simp add: partitioned_def)
    have i0: "reset_part_inv (clear s0, None, 0)" using pc by (simp add: reset_part_inv_def)
    have j0: "reset_sel_inv selected {} (clear s0, None, 0)" by (simp add: reset_sel_inv_def)
    have "reset_part_inv looped" unfolding looped_def using i0 cond by (rule reset_loop_part_inv)
    then have i: "reset_part_inv (fst looped, fst (snd looped), snd (snd looped))" by simp
    have "reset_sel_inv selected ({} \<union> id' ` set sorted_pages) looped"
      unfolding looped_def using i0 j0 dist by (rule reset_loop_sel_inv) (simp, rule cond)
    then have j: "reset_sel_inv selected (id' ` set (snapshotPages pages))
                    (fst looped, fst (snd looped), snd (snd looped))"
      by (simp add: pages)
    from False have "u = (case m_pSelectionLeader t of
                 Some l \<Rightarrow> modifyItem l (setSelectionLeader True) t
               | None \<Rightarrow> t)" by (simp add: r)
    then have "(\<lambda>h. pageId (deref u h)) ` {h \<in> set (m_itemsInOrder u). isSelected u h} =
           (if selected \<inter> id' ` set (snapshotPages pages) \<noteq> {}
            then selected \<inter> id' ` set (snapshotPages pages)
            else if id' (curPage pages) \<in> id' ` set (snapshotPages pages)
                 then {id' (curPage pages)} else {})"
      unfolding t_def by (rule reset_leader_selected [OF i j])
    then show ?thesis
      unfolding u_def [symmetric] selectedItems_partitioned [OF ok_u p_u] sel0 .
  qed
qed
text \<open>
  Claim C6, amended: for a container whose invariants hold and a page list of distinct
  identities, none of them the null one, that contains every selected identity,
  \<^verbatim>\<open>reset(pages, KEEP_SELECTION, provider)\<close> leaves \<^verbatim>\<open>selectedItems()\<close> as it was when
  something was selected; when nothing was selected, the current page becomes the
  selection if it is in the list, and nothing is selected otherwise.
\<close>

theorem reset_keep_selection:
  assumes "store_ok s" and "leader_ok s" and "partitioned s"
    and "distinct (map id' (snapshotPages pages))"
    and "list_all (\<lambda>p. \<not> PageInfo_isNull p) (snapshotPages pages)"
    and "selectedItems s \<subseteq> id' ` set (snapshotPages pages)"
  shows "selectedItems (fst (reset s vis pages KEEP_SELECTION order_provider)) =
           (if selectedItems s \<noteq> {} then selectedItems s
            else if id' (curPage pages) \<in> id' ` set (snapshotPages pages)
                 then {id' (curPage pages)} else {})"
proof -
  from assms(6) have "selectedItems s \<inter> id' ` set (snapshotPages pages) = selectedItems s"
    by auto
  with reset_keep_selectedItems [OF assms(1-5), of vis order_provider] show ?thesis by simp
qed

theorem reset_keep_selection_witness:
  "selectedItems ex_two = {PageId (ImageId ''a'' 0) SINGLE_PAGE, PageId (ImageId ''b'' 0) LEFT_PAGE}
   \<and> selectedItems (fst (reset ex_two ex_vis ex_snapshot KEEP_SELECTION None)) =
       {PageId (ImageId ''a'' 0) SINGLE_PAGE, PageId (ImageId ''b'' 0) LEFT_PAGE}"
proof -
  have a: "store_ok ex_two" by code_simp
  have b: "leader_ok ex_two" by code_simp
  have c: "partitioned ex_two" by code_simp
  have d: "distinct (map id' (snapshotPages ex_snapshot))" by code_simp
  have e: "list_all (\<lambda>p. \<not> PageInfo_isNull p) (snapshotPages ex_snapshot)" by code_simp
  have f: "selectedItems ex_two \<subseteq> id' ` set (snapshotPages ex_snapshot)" by code_simp
  have g: "selectedItems ex_two =
      {PageId (ImageId ''a'' 0) SINGLE_PAGE, PageId (ImageId ''b'' 0) LEFT_PAGE}" by code_simp
  from reset_keep_selection [OF a b c d e f, of ex_vis None] g show ?thesis by simp
qed

text \<open>
  With nothing selected before, every selected identity occurs in any page list, and
  \<^verbatim>\<open>reset\<close> with \<^verbatim>\<open>KEEP_SELECTION\<close> selects the current page: the selection after is not
  the selection before.
\<close>

theorem reset_keep_selection_counterexample:
  "selectedItems Impl_init = {}
   \<and> selectedItems Impl_init \<subseteq> id' ` set (snapshotPages ex_snapshot)
   \<and> selectedItems (fst (reset Impl_init ex_vis ex_snapshot KEEP_SELECTION None)) =
       {PageId (ImageId ''a'' 0) SINGLE_PAGE}
   \<and> selectedItems (fst (reset Impl_init ex_vis ex_snapshot KEEP_SELECTION None)) \<noteq>
       selectedItems Impl_init"
proof -
  have a: "selectedItems Impl_init = {}" by code_simp
  have b: "selectedItems (fst (reset Impl_init ex_vis ex_snapshot KEEP_SELECTION None)) =
       {PageId (ImageId ''a'' 0) SINGLE_PAGE}" by code_simp
  from a b show ?thesis by simp
qed

end
